theory Spec2Isabelle
  imports
    Complex_Main
    "HOL-Library.Word"
    "HOL-Library.Multiset"
    "HOL-Library.AList"
    "HOL-Library.Signed_Division"
begin

unbundle bit_operations_syntax

section \<open>Data model of mining.go\<close>

text \<open>
  Go's fixed-width integers are words: \<open>+\<close>, \<open>-\<close> and \<open>*\<close> wrap around as in Go.
  \<open>int64\<close> values are read with \<open>sint\<close> where the source compares or divides them.
  Go's \<open>int\<close> (sizes, counts, \<open>len\<close>) is \<open>int\<close>; a conversion \<open>uint32(x)\<close> or
  \<open>int64(x)\<close> is \<open>word_of_int\<close>. A \<open>chainhash.Hash\<close> is a 32-byte array, a
  \<open>time.Time\<close> is the number of nanoseconds since the epoch, and the \<open>float64\<close>
  priority is the real number it denotes (the source only compares priorities with
  \<open>==\<close>, \<open>>\<close>, \<open><\<close> and \<open><=\<close>).
\<close>

type_synonym byte = "8 word"
type_synonym uint32 = "32 word"
type_synonym int32 = "32 word"
type_synonym int64 = "64 word"
type_synonym Hash = "256 word"
type_synonym Time = int

datatype error = Err string | RuntimePanic string

definition Second :: Time where
  "Second = 1000000000"

text \<open>Go's \<open>/\<close> on \<open>int64\<close> truncates towards zero; the caller checks the divisor.\<close>

definition int64_quot :: "int64 \<Rightarrow> int64 \<Rightarrow> int64" where
  "int64_quot a b = word_of_int (sint a sdiv sint b)"

record OutPoint =
  op_Hash :: Hash
  op_Index :: uint32

record TxIn =
  PreviousOutPoint :: OutPoint
  SignatureScript :: "byte list"
  Sequence :: uint32

record TxOut =
  Value :: int64
  PkScript :: "byte list"

record MsgTx =
  tx_Version :: int32
  tx_TxIn :: "TxIn list"
  tx_TxOut :: "TxOut list"
  tx_LockTime :: uint32

record BlockHeader =
  hdr_Version :: int32
  hdr_PrevBlock :: Hash
  hdr_MerkleRoot :: Hash
  hdr_Timestamp :: Time
  hdr_Bits :: uint32
  hdr_Height :: uint32
  hdr_Size :: uint32
  hdr_Signature :: "byte list"

record MsgBlock =
  Header :: BlockHeader
  Transactions :: "MsgTx list"

record BestState =
  best_Hash :: "Hash option"
  best_Height :: uint32
  best_MedianTime :: Time

record Policy =
  BlockMinSize :: uint32
  BlockMaxSize :: uint32
  BlockPrioritySize :: uint32
  TxMinFreeFee :: int64

record TxDesc =
  desc_Tx :: MsgTx
  desc_Fee :: int64

text \<open>
  \<open>txPrioItem\<close>. \<open>dependsOn\<close> is a Go map used as a set: \<open>None\<close> is the nil map,
  \<open>Some hs\<close> a map with the keys \<open>hs\<close>.
\<close>

record txPrioItem =
  item_tx :: MsgTx
  item_fee :: int64
  item_priority :: real
  item_feePerKB :: int64
  item_isAdmin :: bool
  item_dependsOn :: "Hash list option"

text \<open>
  \<open>txPriorityQueue\<close>. The Go slice holds pointers to \<open>txPrioItem\<close>; a pointer is the
  index of the item in the list of allocated items (\<open>prioItems\<close> below), and the
  compare function reads the items the pointers refer to.
\<close>

record txPriorityQueue =
  lessFunc :: "txPrioItem list \<Rightarrow> nat \<Rightarrow> nat \<Rightarrow> bool"
  items :: "nat list"

record BlockTemplate =
  Block :: MsgBlock
  Fees :: "int64 list"
  SigOpCounts :: "int64 list"
  Height :: uint32
  ValidPayAddress :: bool

datatype ScriptClass = ProvaAdminTy | OtherTy nat

text \<open>
  A \<open>blockchain.UtxoViewpoint\<close> is its map from transaction hash to entry pointer; the
  pointer may be nil (\<open>Some None\<close>). \<open>LookupEntry\<close> returns nil for a missing key.
\<close>

type_synonym 'e UtxoViewpoint = "Hash \<Rightarrow> 'e option option"

definition LookupEntry :: "'e UtxoViewpoint \<Rightarrow> Hash \<Rightarrow> 'e option" where
  "LookupEntry view h = (case view h of None \<Rightarrow> None | Some entry \<Rightarrow> entry)"

section \<open>The collaborators\<close>

text \<open>
  The packages \<open>blockchain\<close>, \<open>mempool\<close>, \<open>mining\<close>, \<open>txscript\<close>, \<open>wire\<close> and
  \<open>provautil\<close>, the chain, the transaction source and the time source are not part of
  mining.go. Every function of theirs that mining.go calls is a field of the
  environment, so each theorem holds for every behaviour of the collaborators.
  \<open>'e\<close> is a utxo entry, \<open>'k\<close> the key view handed to output and script validation,
  \<open>'a\<close> a payment address, \<open>'p\<close> a parsed script and \<open>'pk\<close> a private key.
  \<open>AdjustedTime n\<close> is what the \<open>n\<close>-th call of \<open>timeSource.AdjustedTime()\<close>
  within one run returns (the clock moves between calls). \<open>rangeOrder\<close> is the order
  in which Go's \<open>range\<close> visits the entries of a map, which the language leaves open.
\<close>

record ('e, 'k, 'a, 'p, 'pk) Env =
  BestSnapshot :: BestState
  FetchUtxoView :: "MsgTx \<Rightarrow> error + 'e UtxoViewpoint"
  CalcNextRequiredDifficulty :: "error + uint32"
  CheckConnectBlock :: "MsgBlock \<Rightarrow> error option"
  chainKeyView :: 'k
  MiningDescs :: "TxDesc list"
  HaveTransaction :: "Hash \<Rightarrow> bool"
  AdjustedTime :: "nat \<Rightarrow> Time"
  CalcBlockSubsidy :: "uint32 \<Rightarrow> int64"
  CountSigOps :: "MsgTx \<Rightarrow> int"
  CountP2SHSigOps :: "MsgTx \<Rightarrow> bool \<Rightarrow> 'e UtxoViewpoint \<Rightarrow> error + int"
  IsCoinBase :: "MsgTx \<Rightarrow> bool"
  IsFinalizedTransaction :: "MsgTx \<Rightarrow> uint32 \<Rightarrow> Time \<Rightarrow> bool"
  CheckTransactionInputs :: "MsgTx \<Rightarrow> uint32 \<Rightarrow> 'e UtxoViewpoint \<Rightarrow> error option"
  CheckTransactionOutputs :: "MsgTx \<Rightarrow> 'k \<Rightarrow> error option"
  ValidateTransactionScripts :: "MsgTx \<Rightarrow> 'e UtxoViewpoint \<Rightarrow> 'k \<Rightarrow> error option"
  BuildMerkleTreeStore :: "MsgTx list \<Rightarrow> Hash option list"
  MaxSigOpsPerBlock :: int64
  IsFullySpent :: "'e \<Rightarrow> bool"
  IsOutputSpent :: "'e \<Rightarrow> uint32 \<Rightarrow> bool"
  SpendOutput :: "'e \<Rightarrow> uint32 \<Rightarrow> 'e"
  AddTxOuts :: "'e UtxoViewpoint \<Rightarrow> MsgTx \<Rightarrow> uint32 \<Rightarrow> 'e UtxoViewpoint"
  CalcPriority :: "MsgTx \<Rightarrow> 'e UtxoViewpoint \<Rightarrow> uint32 \<Rightarrow> real"
  MinHighPriority :: real
  ParseScript :: "byte list \<Rightarrow> error + 'p"
  TypeOfScript :: "'p \<Rightarrow> ScriptClass"
  PayToAddrScript :: "'a \<Rightarrow> error + byte list"
  TxHash :: "MsgTx \<Rightarrow> Hash"
  SerializeSize :: "MsgTx \<Rightarrow> int"
  MaxBlockHeaderPayload :: uint32
  SignatureOf :: "BlockHeader \<Rightarrow> 'pk \<Rightarrow> error + byte list"
  rangeOrder :: "(Hash \<times> nat) list \<Rightarrow> (Hash \<times> nat) list"

section \<open>The priority queue\<close>

subsection \<open>container/heap\<close>

text \<open>
  Go's \<open>container/heap\<close> works on the queue through \<open>Len\<close>, \<open>Less\<close>, \<open>Swap\<close>,
  \<open>Push\<close> and \<open>Pop\<close>. Here it works on the slice directly; \<open>lt xs i j\<close> is
  \<open>Less(i, j)\<close> on the slice \<open>xs\<close>.
\<close>

definition pq_Swap :: "'a list \<Rightarrow> nat \<Rightarrow> nat \<Rightarrow> 'a list" where
  "pq_Swap xs i j = xs[i := xs ! j, j := xs ! i]"

function heap_up :: "('a list \<Rightarrow> nat \<Rightarrow> nat \<Rightarrow> bool) \<Rightarrow> 'a list \<Rightarrow> nat \<Rightarrow> 'a list" where
  "heap_up lt xs j =
     (let i = (j - 1) div 2 in
      if i \<noteq> j \<and> lt xs j i then heap_up lt (pq_Swap xs i j) i else xs)"
  by pat_completeness auto
termination
  by (relation "measure (\<lambda>(lt, xs, j). j)") auto

function heap_down :: "('a list \<Rightarrow> nat \<Rightarrow> nat \<Rightarrow> bool) \<Rightarrow> 'a list \<Rightarrow> nat \<Rightarrow> nat \<Rightarrow> 'a list" where
  "heap_down lt xs i n =
     (let j1 = 2 * i + 1 in
      if n \<le> j1 then xs
      else let j = (if j1 + 1 < n \<and> lt xs (j1 + 1) j1 then j1 + 1 else j1) in
           if lt xs j i then heap_down lt (pq_Swap xs i j) j n else xs)"
  by pat_completeness auto
termination
  by (relation "measure (\<lambda>(lt, xs, i, n). n - i)") (auto split: if_splits)

text \<open>\<open>heap.Init\<close>: \<open>down\<close> for \<open>i\<close> from \<open>n/2 - 1\<close> to \<open>0\<close>.\<close>

definition heap_Init :: "('a list \<Rightarrow> nat \<Rightarrow> nat \<Rightarrow> bool) \<Rightarrow> 'a list \<Rightarrow> 'a list" where
  "heap_Init lt xs =
     fold (\<lambda>i ys. heap_down lt ys i (length xs)) (rev [0..<length xs div 2]) xs"

text \<open>\<open>heap.Push\<close>: append, then \<open>up\<close> from the last index.\<close>

definition heap_Push :: "('a list \<Rightarrow> nat \<Rightarrow> nat \<Rightarrow> bool) \<Rightarrow> 'a list \<Rightarrow> 'a \<Rightarrow> 'a list" where
  "heap_Push lt xs x = heap_up lt (xs @ [x]) (length xs)"

text \<open>
  \<open>heap.Pop\<close>: swap the first and the last element, \<open>down\<close> from the root over the
  first \<open>n\<close> elements, remove and return the last one. The source calls it on a
  non-empty queue only (the loop tests \<open>Len() > 0\<close>).
\<close>

definition heap_Pop :: "('a list \<Rightarrow> nat \<Rightarrow> nat \<Rightarrow> bool) \<Rightarrow> 'a list \<Rightarrow> 'a \<times> 'a list" where
  "heap_Pop lt xs =
     (let n = length xs - 1;
          ys = heap_down lt (pq_Swap xs 0 n) 0 n
      in (last ys, butlast ys))"

subsection \<open>txPriorityQueue\<close>

definition txPQByPriority :: "txPrioItem list \<Rightarrow> nat \<Rightarrow> nat \<Rightarrow> bool" where
  "txPQByPriority pq_items i j =
     (if item_isAdmin (pq_items ! i) then True
      else if item_priority (pq_items ! i) = item_priority (pq_items ! j)
      then sint (item_feePerKB (pq_items ! j)) < sint (item_feePerKB (pq_items ! i))
      else item_priority (pq_items ! j) < item_priority (pq_items ! i))"

definition txPQByFee :: "txPrioItem list \<Rightarrow> nat \<Rightarrow> nat \<Rightarrow> bool" where
  "txPQByFee pq_items i j =
     (if item_isAdmin (pq_items ! i) then True
      else if item_feePerKB (pq_items ! i) = item_feePerKB (pq_items ! j)
      then item_priority (pq_items ! j) < item_priority (pq_items ! i)
      else sint (item_feePerKB (pq_items ! j)) < sint (item_feePerKB (pq_items ! i)))"

text \<open>\<open>pq.Less\<close> on a slice of pointers: the compare function on the items they point to.\<close>

definition pq_Less :: "txPrioItem list \<Rightarrow> txPriorityQueue \<Rightarrow> nat list \<Rightarrow> nat \<Rightarrow> nat \<Rightarrow> bool" where
  "pq_Less store pq ptrs i j = lessFunc pq (map (\<lambda>a. store ! a) ptrs) i j"

definition SetLessFunc ::
  "txPrioItem list \<Rightarrow> txPriorityQueue \<Rightarrow> (txPrioItem list \<Rightarrow> nat \<Rightarrow> nat \<Rightarrow> bool) \<Rightarrow> txPriorityQueue" where
  "SetLessFunc store pq f =
     (let pq = pq\<lparr>lessFunc := f\<rparr>
      in pq\<lparr>items := heap_Init (pq_Less store pq) (items pq)\<rparr>)"

definition newTxPriorityQueue :: "txPrioItem list \<Rightarrow> bool \<Rightarrow> txPriorityQueue" where
  "newTxPriorityQueue store sortByFee =
     (let pq = \<lparr>lessFunc = txPQByPriority, items = []\<rparr>
      in if sortByFee then SetLessFunc store pq txPQByFee
         else SetLessFunc store pq txPQByPriority)"

definition pq_heapPush :: "txPrioItem list \<Rightarrow> txPriorityQueue \<Rightarrow> nat \<Rightarrow> txPriorityQueue" where
  "pq_heapPush store pq a = pq\<lparr>items := heap_Push (pq_Less store pq) (items pq) a\<rparr>"

definition pq_heapPop :: "txPrioItem list \<Rightarrow> txPriorityQueue \<Rightarrow> nat \<times> txPriorityQueue" where
  "pq_heapPop store pq =
     (let (a, rest) = heap_Pop (pq_Less store pq) (items pq)
      in (a, pq\<lparr>items := rest\<rparr>))"

section \<open>isAdmin\<close>

text \<open>The loop over \<open>msgTx.TxOut\<close>, with its two \<open>return\<close>s inside the loop.\<close>

fun isAdmin_outs :: "('e, 'k, 'a, 'p, 'pk) Env \<Rightarrow> TxOut list \<Rightarrow> bool" where
  "isAdmin_outs env [] = False"
| "isAdmin_outs env (txOut # rest) =
     (case ParseScript env (PkScript txOut) of
        Inl err \<Rightarrow> False
      | Inr pops \<Rightarrow>
          if TypeOfScript env pops = ProvaAdminTy then True
          else isAdmin_outs env rest)"

definition isAdmin :: "('e, 'k, 'a, 'p, 'pk) Env \<Rightarrow> MsgTx \<Rightarrow> bool" where
  "isAdmin env msgTx = isAdmin_outs env (tx_TxOut msgTx)"

section \<open>Utxo views\<close>

definition mergeUtxoView ::
  "('e, 'k, 'a, 'p, 'pk) Env \<Rightarrow> 'e UtxoViewpoint \<Rightarrow> 'e UtxoViewpoint \<Rightarrow> 'e UtxoViewpoint" where
  "mergeUtxoView env viewA viewB =
     (\<lambda>hash. case viewB hash of
        None \<Rightarrow> viewA hash
      | Some entryB \<Rightarrow>
          (case viewA hash of
             None \<Rightarrow> Some entryB
           | Some None \<Rightarrow> Some entryB
           | Some (Some entryA) \<Rightarrow>
               if IsFullySpent env entryA then Some entryB else Some (Some entryA)))"

fun spendInputs ::
  "('e, 'k, 'a, 'p, 'pk) Env \<Rightarrow> 'e UtxoViewpoint \<Rightarrow> TxIn list \<Rightarrow> 'e UtxoViewpoint" where
  "spendInputs env utxoView [] = utxoView"
| "spendInputs env utxoView (txIn # rest) =
     (let originHash = op_Hash (PreviousOutPoint txIn);
          originIndex = op_Index (PreviousOutPoint txIn)
      in case LookupEntry utxoView originHash of
           None \<Rightarrow> spendInputs env utxoView rest
         | Some entry \<Rightarrow>
             spendInputs env
               (utxoView(originHash := Some (Some (SpendOutput env entry originIndex)))) rest)"

definition spendTransaction ::
  "('e, 'k, 'a, 'p, 'pk) Env \<Rightarrow> 'e UtxoViewpoint \<Rightarrow> MsgTx \<Rightarrow> uint32 \<Rightarrow> 'e UtxoViewpoint" where
  "spendTransaction env utxoView tx height =
     AddTxOuts env (spendInputs env utxoView (tx_TxIn tx)) tx height"

section \<open>Timestamps\<close>

definition minimumMedianTime :: "BestState \<Rightarrow> Time" where
  "minimumMedianTime chainState = best_MedianTime chainState + Second"

text \<open>
  \<open>medianAdjustedTime\<close>; the second argument is what \<open>timeSource.AdjustedTime()\<close>
  returned to it.
\<close>

definition medianAdjustedTime :: "BestState \<Rightarrow> Time \<Rightarrow> Time" where
  "medianAdjustedTime chainState adjustedTime =
     (let newTimestamp = adjustedTime;
          minTimestamp = minimumMedianTime chainState
      in if newTimestamp < minTimestamp then minTimestamp else newTimestamp)"

section \<open>Scripts, wire constants and signing\<close>

text \<open>
  Modelled from the spec: \<open>txscript.ScriptBuilder\<close> and the opcodes, which are not in
  mining.go. The spec (4.4) says the coinbase signature script is the bytes of
  \<open>coinbaseFlags\<close> pushed as data and the output script is the single opcode
  ALWAYS-TRUE, or the single opcode RETURN; so \<open>AddOp\<close> appends the opcode, and
  \<open>AddData\<close> appends the length byte and the bytes (the direct push of 2 to 75 bytes;
  mining.go pushes the seven bytes of \<open>coinbaseFlags\<close> only, and any other length is an
  error of the model). The opcode bytes are those of the Bitcoin script language.
\<close>

record ScriptBuilder =
  sb_script :: "byte list"
  sb_err :: "error option"

definition NewScriptBuilder :: ScriptBuilder where
  "NewScriptBuilder = \<lparr>sb_script = [], sb_err = None\<rparr>"

definition AddOp :: "ScriptBuilder \<Rightarrow> byte \<Rightarrow> ScriptBuilder" where
  "AddOp b opcode =
     (case sb_err b of
        Some err \<Rightarrow> b
      | None \<Rightarrow> b\<lparr>sb_script := sb_script b @ [opcode]\<rparr>)"

definition AddData :: "ScriptBuilder \<Rightarrow> byte list \<Rightarrow> ScriptBuilder" where
  "AddData b data =
     (case sb_err b of
        Some err \<Rightarrow> b
      | None \<Rightarrow>
          if 2 \<le> length data \<and> length data \<le> 75
          then b\<lparr>sb_script := sb_script b @ [of_nat (length data)] @ data\<rparr>
          else b\<lparr>sb_err := Some (Err ''AddData: push outside the model'')\<rparr>)"

definition Script :: "ScriptBuilder \<Rightarrow> error + byte list" where
  "Script b = (case sb_err b of Some err \<Rightarrow> Inl err | None \<Rightarrow> Inr (sb_script b))"

definition OP_TRUE :: byte where
  "OP_TRUE = 0x51"

definition OP_RETURN :: byte where
  "OP_RETURN = 0x6a"

text \<open>
  Modelled from the spec: the constants and the varint size of package \<open>wire\<close>, which
  are not in mining.go. The spec (4.4, 4.5, 4.6) names the sentinel index "none", the
  maximum sequence, the worst-case varint reservation and the actual varint size of the
  transaction count; the values are those of the Bitcoin wire protocol.
  \<open>MaxBlockHeaderPayload\<close> is specific to this chain and is a field of the environment.
\<close>

definition MaxPrevOutIndex :: uint32 where
  "MaxPrevOutIndex = 0xffffffff"

definition MaxTxInSequenceNum :: uint32 where
  "MaxTxInSequenceNum = 0xffffffff"

definition TxVersion :: int32 where
  "TxVersion = 1"

definition MaxVarIntPayload :: uint32 where
  "MaxVarIntPayload = 9"

definition VarIntSerializeSize :: "64 word \<Rightarrow> int" where
  "VarIntSerializeSize val =
     (if val < 0xfd then 1
      else if val \<le> 0xffff then 3
      else if val \<le> 0xffffffff then 5
      else 9)"

text \<open>
  Modelled from the spec: \<open>wire.MsgBlock.AddTransaction\<close> and \<open>wire.BlockHeader.Sign\<close>,
  which are not in mining.go. The spec (4.6 step 9) says the transactions are appended to
  the block body, and (4.6 step 8, 4.7) that signing computes the validator signature of
  the header and modifies no other field. The signature itself, or the failure to
  sign, comes from the environment.
\<close>

definition AddTransaction :: "MsgBlock \<Rightarrow> MsgTx \<Rightarrow> MsgBlock \<times> error option" where
  "AddTransaction msgBlock tx =
     (msgBlock\<lparr>Transactions := Transactions msgBlock @ [tx]\<rparr>, None)"

definition Sign ::
  "('e, 'k, 'a, 'p, 'pk) Env \<Rightarrow> BlockHeader \<Rightarrow> 'pk \<Rightarrow> BlockHeader \<times> error option" where
  "Sign env header key =
     (case SignatureOf env header key of
        Inl err \<Rightarrow> (header, Some err)
      | Inr sig \<Rightarrow> (header\<lparr>hdr_Signature := sig\<rparr>, None))"

section \<open>Constants of mining.go\<close>

definition generatedBlockVersion :: int32 where
  "generatedBlockVersion = 4"

definition blockHeaderOverhead :: "('e, 'k, 'a, 'p, 'pk) Env \<Rightarrow> uint32" where
  "blockHeaderOverhead env = MaxBlockHeaderPayload env + MaxVarIntPayload"

text \<open>The bytes of the string \<open>"/prova/"\<close>.\<close>

definition coinbaseFlags :: "byte list" where
  "coinbaseFlags = [0x2f, 0x70, 0x72, 0x6f, 0x76, 0x61, 0x2f]"

section \<open>The coinbase\<close>

definition standardCoinbaseScript :: "error + byte list" where
  "standardCoinbaseScript = Script (AddData NewScriptBuilder coinbaseFlags)"

definition createCoinbaseTx ::
  "('e, 'k, 'a, 'p, 'pk) Env \<Rightarrow> byte list \<Rightarrow> uint32 \<Rightarrow> 'a option \<Rightarrow> error + MsgTx" where
  "createCoinbaseTx env coinbaseScript nextBlockHeight addr =
     (case (case addr of
              Some a \<Rightarrow> PayToAddrScript env a
            | None \<Rightarrow> Script (AddOp NewScriptBuilder OP_TRUE)) of
        Inl err \<Rightarrow> Inl err
      | Inr pkScript \<Rightarrow>
          Inr \<lparr>tx_Version = TxVersion,
               tx_TxIn =
                 [\<lparr>PreviousOutPoint = \<lparr>op_Hash = 0, op_Index = MaxPrevOutIndex\<rparr>,
                   SignatureScript = coinbaseScript,
                   Sequence = MaxTxInSequenceNum\<rparr>],
               tx_TxOut =
                 [\<lparr>Value = CalcBlockSubsidy env nextBlockHeight, PkScript = pkScript\<rparr>],
               tx_LockTime = nextBlockHeight\<rparr>)"

section \<open>NewBlockTemplate\<close>

text \<open>
  The local variables of \<open>NewBlockTemplate\<close> that its loops change. \<open>prioItems\<close> holds
  every \<open>txPrioItem\<close> the function allocates; the queue and the \<open>dependers\<close> maps share
  the items by pointer, so both hold indices into \<open>prioItems\<close> and a write through one
  pointer is seen through the others. An inner map of \<open>dependers\<close> is an association
  list with distinct keys. \<open>timeCalls\<close> counts the calls of
  \<open>timeSource.AdjustedTime()\<close> so far.
\<close>

record 'e Locals =
  priorityQueue :: txPriorityQueue
  prioItems :: "txPrioItem list"
  dependers :: "Hash \<Rightarrow> (Hash \<times> nat) list option"
  blockUtxos :: "'e UtxoViewpoint"
  blockTxns :: "MsgTx list"
  txFees :: "int64 list"
  txSigOpCounts :: "int64 list"
  blockSize :: uint32
  blockSigOps :: int64
  totalFees :: int64
  sortedByFee :: bool
  timeCalls :: nat

subsection \<open>The loop over the source transactions\<close>

text \<open>
  The loop over \<open>tx.MsgTx().TxIn\<close> for the item at \<open>a\<close>. The result \<open>False\<close> is
  \<open>continue mempoolLoop\<close>: the dependencies recorded before it stay recorded.
\<close>

fun setupDependencies ::
  "('e, 'k, 'a, 'p, 'pk) Env \<Rightarrow> 'e UtxoViewpoint \<Rightarrow> nat \<Rightarrow> TxIn list \<Rightarrow> 'e Locals
     \<Rightarrow> bool \<times> 'e Locals" where
  "setupDependencies env utxos a [] st = (True, st)"
| "setupDependencies env utxos a (txIn # rest) st =
     (let originHash = op_Hash (PreviousOutPoint txIn);
          originIndex = op_Index (PreviousOutPoint txIn)
      in if (case LookupEntry utxos originHash of
               None \<Rightarrow> True
             | Some utxoEntry \<Rightarrow> IsOutputSpent env utxoEntry originIndex)
         then
           if HaveTransaction env originHash
           then
             let prioItem = prioItems st ! a;
                 deps = (case dependers st originHash of None \<Rightarrow> [] | Some deps \<Rightarrow> deps);
                 deps = AList.update (TxHash env (item_tx prioItem)) a deps;
                 dependsOn = (case item_dependsOn prioItem of None \<Rightarrow> [] | Some hs \<Rightarrow> hs);
                 prioItem = prioItem\<lparr>item_dependsOn := Some (List.insert originHash dependsOn)\<rparr>
             in setupDependencies env utxos a rest
                  (st\<lparr>dependers := (dependers st)(originHash \<mapsto> deps),
                      prioItems := (prioItems st)[a := prioItem]\<rparr>)
           else (False, st)
         else setupDependencies env utxos a rest st)"

definition newPrioItem :: "MsgTx \<Rightarrow> txPrioItem" where
  "newPrioItem tx =
     \<lparr>item_tx = tx, item_fee = 0, item_priority = 0, item_feePerKB = 0,
      item_isAdmin = False, item_dependsOn = None\<rparr>"

text \<open>
  The body of \<open>mempoolLoop\<close> from the priority calculation to its end (lines 587 to
  608), for the item at \<open>a\<close>. The division panics for a divisor of zero.
\<close>

definition completePrioItem ::
  "('e, 'k, 'a, 'p, 'pk) Env \<Rightarrow> uint32 \<Rightarrow> TxDesc \<Rightarrow> 'e UtxoViewpoint \<Rightarrow> nat \<Rightarrow> 'e Locals
     \<Rightarrow> error + 'e Locals" where
  "completePrioItem env nextBlockHeight txDesc utxos a st =
     (let tx = desc_Tx txDesc;
          priority = CalcPriority env tx utxos nextBlockHeight;
          txSize = SerializeSize env tx
      in if (word_of_int txSize :: int64) = 0
         then Inl (RuntimePanic ''integer divide by zero'')
         else
           let prioItem = (prioItems st ! a)
                 \<lparr>item_priority := priority,
                  item_feePerKB := int64_quot (desc_Fee txDesc * 1000) (word_of_int txSize),
                  item_fee := desc_Fee txDesc,
                  item_isAdmin := isAdmin env tx\<rparr>;
               st = st\<lparr>prioItems := (prioItems st)[a := prioItem]\<rparr>;
               st = (if item_dependsOn prioItem = None
                     then st\<lparr>priorityQueue := pq_heapPush (prioItems st) (priorityQueue st) a\<rparr>
                     else st)
           in Inr (st\<lparr>blockUtxos := mergeUtxoView env (blockUtxos st) utxos\<rparr>))"

text \<open>
  One pass through the body of \<open>mempoolLoop\<close>; every \<open>continue\<close> returns the state
  as it is at that point.
\<close>

definition mempoolStep ::
  "('e, 'k, 'a, 'p, 'pk) Env \<Rightarrow> uint32 \<Rightarrow> TxDesc \<Rightarrow> 'e Locals \<Rightarrow> error + 'e Locals" where
  "mempoolStep env nextBlockHeight txDesc st0 =
     (let tx = desc_Tx txDesc
      in if IsCoinBase env tx then Inr st0
         else
           let now = AdjustedTime env (timeCalls st0);
               st = st0\<lparr>timeCalls := Suc (timeCalls st0)\<rparr>
           in if \<not> IsFinalizedTransaction env tx nextBlockHeight now then Inr st
              else
                case FetchUtxoView env tx of
                  Inl err \<Rightarrow> Inr st
                | Inr utxos \<Rightarrow>
                    let a = length (prioItems st);
                        st = st\<lparr>prioItems := prioItems st @ [newPrioItem tx]\<rparr>;
                        scanned = setupDependencies env utxos a (tx_TxIn tx) st
                    in if \<not> fst scanned then Inr (snd scanned)
                       else completePrioItem env nextBlockHeight txDesc utxos a (snd scanned))"

fun mempoolLoop ::
  "('e, 'k, 'a, 'p, 'pk) Env \<Rightarrow> uint32 \<Rightarrow> TxDesc list \<Rightarrow> 'e Locals \<Rightarrow> error + 'e Locals" where
  "mempoolLoop env nextBlockHeight [] st = Inr st"
| "mempoolLoop env nextBlockHeight (txDesc # rest) st =
     (case mempoolStep env nextBlockHeight txDesc st of
        Inl panic \<Rightarrow> Inl panic
      | Inr st \<Rightarrow> mempoolLoop env nextBlockHeight rest st)"

subsection \<open>The loop that chooses the transactions\<close>

text \<open>
  The loop over \<open>deps\<close> after a transaction with hash \<open>h\<close> is added: \<open>delete\<close> on the
  nil map does nothing and the length of the nil map is 0.
\<close>

fun promoteDeps :: "Hash \<Rightarrow> (Hash \<times> nat) list \<Rightarrow> 'e Locals \<Rightarrow> 'e Locals" where
  "promoteDeps h [] st = st"
| "promoteDeps h (dep # rest) st =
     (let a = snd dep;
          item = (prioItems st ! a)
            \<lparr>item_dependsOn := map_option (removeAll h) (item_dependsOn (prioItems st ! a))\<rparr>;
          st = st\<lparr>prioItems := (prioItems st)[a := item]\<rparr>;
          st = (if (case item_dependsOn item of None \<Rightarrow> True | Some hs \<Rightarrow> hs = [])
                then st\<lparr>priorityQueue := pq_heapPush (prioItems st) (priorityQueue st) a\<rparr>
                else st)
      in promoteDeps h rest st)"

text \<open>
  The body of \<open>for priorityQueue.Len() > 0\<close>, in four parts that follow one another
  in the source; every \<open>continue\<close> is a branch that returns the state as it is at that
  point. \<open>a\<close> is the popped item.

  Lines 742 to 771: the transaction is added to the block and its dependants are
  looked at.
\<close>

definition addToBlock ::
  "('e, 'k, 'a, 'p, 'pk) Env \<Rightarrow> uint32 \<Rightarrow> nat \<Rightarrow> int64 \<Rightarrow> 'e Locals \<Rightarrow> 'e Locals" where
  "addToBlock env nextBlockHeight a numSigOps st =
     (let prioItem = prioItems st ! a;
          tx = item_tx prioItem;
          deps = (case dependers st (TxHash env tx) of None \<Rightarrow> [] | Some deps \<Rightarrow> deps);
          txSize = (word_of_int (SerializeSize env tx) :: uint32)
      in promoteDeps (TxHash env tx) (rangeOrder env deps)
           (st\<lparr>blockUtxos := spendTransaction env (blockUtxos st) tx nextBlockHeight,
               blockTxns := blockTxns st @ [tx],
               blockSize := blockSize st + txSize,
               blockSigOps := blockSigOps st + numSigOps,
               totalFees := totalFees st + item_fee prioItem,
               txFees := txFees st @ [item_fee prioItem],
               txSigOpCounts := txSigOpCounts st @ [numSigOps]\<rparr>))"

text \<open>Lines 713 to 740: the three checks of the transaction.\<close>

definition checkAndAdd ::
  "('e, 'k, 'a, 'p, 'pk) Env \<Rightarrow> uint32 \<Rightarrow> nat \<Rightarrow> int64 \<Rightarrow> 'e Locals \<Rightarrow> 'e Locals" where
  "checkAndAdd env nextBlockHeight a numSigOps st =
     (let tx = item_tx (prioItems st ! a)
      in if CheckTransactionInputs env tx nextBlockHeight (blockUtxos st) \<noteq> None then st
         else if CheckTransactionOutputs env tx (chainKeyView env) \<noteq> None then st
         else if ValidateTransactionScripts env tx (blockUtxos st) (chainKeyView env) \<noteq> None
         then st
         else addToBlock env nextBlockHeight a numSigOps st)"

text \<open>Lines 684 to 711: the change from the order by priority to the order by fee.\<close>

definition switchToFee ::
  "('e, 'k, 'a, 'p, 'pk) Env \<Rightarrow> Policy \<Rightarrow> uint32 \<Rightarrow> nat \<Rightarrow> uint32 \<Rightarrow> int64 \<Rightarrow> 'e Locals
     \<Rightarrow> 'e Locals" where
  "switchToFee env policy nextBlockHeight a blockPlusTxSize numSigOps st =
     (let prioItem = prioItems st ! a
      in if \<not> sortedByFee st \<and>
            (BlockPrioritySize policy \<le> blockPlusTxSize \<or>
             item_priority prioItem \<le> MinHighPriority env)
         then
           let st = st\<lparr>sortedByFee := True,
                      priorityQueue :=
                        SetLessFunc (prioItems st) (priorityQueue st) txPQByFee\<rparr>
           in if BlockPrioritySize policy < blockPlusTxSize \<or>
                 item_priority prioItem < MinHighPriority env
              then st\<lparr>priorityQueue := pq_heapPush (prioItems st) (priorityQueue st) a\<rparr>
              else checkAndAdd env nextBlockHeight a numSigOps st
         else checkAndAdd env nextBlockHeight a numSigOps st)"

text \<open>Lines 622 to 682: the pop, the size gate, the two sigop gates and the free cutoff.\<close>

definition assemblyStep ::
  "('e, 'k, 'a, 'p, 'pk) Env \<Rightarrow> Policy \<Rightarrow> uint32 \<Rightarrow> 'e Locals \<Rightarrow> 'e Locals" where
  "assemblyStep env policy nextBlockHeight st0 =
     (let popped = pq_heapPop (prioItems st0) (priorityQueue st0);
          a = fst popped;
          st = st0\<lparr>priorityQueue := snd popped\<rparr>;
          prioItem = prioItems st ! a;
          tx = item_tx prioItem;
          txSize = (word_of_int (SerializeSize env tx) :: uint32);
          blockPlusTxSize = blockSize st + txSize
      in if blockPlusTxSize < blockSize st \<or> BlockMaxSize policy \<le> blockPlusTxSize then st
         else
           let numSigOps = (word_of_int (CountSigOps env tx) :: int64)
           in if sint (blockSigOps st + numSigOps) < sint (blockSigOps st) \<or>
                 sint (MaxSigOpsPerBlock env) < sint (blockSigOps st + numSigOps)
              then st
              else
                case CountP2SHSigOps env tx False (blockUtxos st) of
                  Inl err \<Rightarrow> st
                | Inr numP2SHSigOps \<Rightarrow>
                    let numSigOps = numSigOps + word_of_int numP2SHSigOps
                    in if sint (blockSigOps st + numSigOps) < sint (blockSigOps st) \<or>
                          sint (MaxSigOpsPerBlock env) < sint (blockSigOps st + numSigOps)
                       then st
                       else if sortedByFee st \<and>
                               sint (item_feePerKB prioItem) < sint (TxMinFreeFee policy) \<and>
                               BlockMinSize policy \<le> blockPlusTxSize
                       then st
                       else switchToFee env policy nextBlockHeight a blockPlusTxSize
                              numSigOps st)"

text \<open>The loop itself; \<open>None\<close> is a loop that never ends.\<close>

partial_function (option) assemblyLoop ::
  "('e, 'k, 'a, 'p, 'pk) Env \<Rightarrow> Policy \<Rightarrow> uint32 \<Rightarrow> 'e Locals \<Rightarrow> 'e Locals option" where
  "assemblyLoop env policy nextBlockHeight st =
     (if items (priorityQueue st) = [] then Some st
      else assemblyLoop env policy nextBlockHeight
             (assemblyStep env policy nextBlockHeight st))"

declare assemblyLoop.simps [code]

subsection \<open>The function in two parts\<close>

text \<open>
  \<open>selectTransactions\<close> is \<open>NewBlockTemplate\<close> up to the end of the loop that chooses
  the transactions, and \<open>finishTemplate\<close> is the rest of it. \<open>blockSize\<close>,
  \<open>blockSigOps\<close> and \<open>totalFees\<close> get their first values with the other locals (the
  source declares them after the first loop, from values the first loop does not
  change). The coinbase is \<open>blockTxns[0]\<close>: the source updates it through the pointer
  that this slice holds too.
\<close>

definition initialLocals ::
  "('e, 'k, 'a, 'p, 'pk) Env \<Rightarrow> Policy \<Rightarrow> MsgTx \<Rightarrow> 'e Locals" where
  "initialLocals env policy coinbaseTx =
     (let numCoinbaseSigOps = (word_of_int (CountSigOps env coinbaseTx) :: int64);
          sortedByFee = (BlockPrioritySize policy = 0)
      in \<lparr>priorityQueue = newTxPriorityQueue [] sortedByFee,
          prioItems = [],
          dependers = (\<lambda>h. None),
          blockUtxos = (\<lambda>h. None),
          blockTxns = [coinbaseTx],
          txFees = [- 1],
          txSigOpCounts = [numCoinbaseSigOps],
          blockSize = blockHeaderOverhead env + word_of_int (SerializeSize env coinbaseTx),
          blockSigOps = numCoinbaseSigOps,
          totalFees = 0,
          sortedByFee = sortedByFee,
          timeCalls = 0\<rparr>)"

definition selectTransactions ::
  "('e, 'k, 'a, 'p, 'pk) Env \<Rightarrow> Policy \<Rightarrow> 'a option \<Rightarrow> (error + 'e Locals) option" where
  "selectTransactions env policy payToAddress =
     (let best = BestSnapshot env;
          nextBlockHeight = best_Height best + 1
      in case standardCoinbaseScript of
           Inl err \<Rightarrow> Some (Inl err)
         | Inr coinbaseScript \<Rightarrow>
             (case createCoinbaseTx env coinbaseScript nextBlockHeight payToAddress of
                Inl err \<Rightarrow> Some (Inl err)
              | Inr coinbaseTx \<Rightarrow>
                  (case mempoolLoop env nextBlockHeight (MiningDescs env)
                          (initialLocals env policy coinbaseTx) of
                     Inl err \<Rightarrow> Some (Inl err)
                   | Inr st \<Rightarrow>
                       (case assemblyLoop env policy nextBlockHeight st of
                          None \<Rightarrow> None
                        | Some st \<Rightarrow> Some (Inr st)))))"

fun addTransactions :: "MsgBlock \<Rightarrow> MsgTx list \<Rightarrow> error + MsgBlock" where
  "addTransactions msgBlock [] = Inr msgBlock"
| "addTransactions msgBlock (tx # rest) =
     (case AddTransaction msgBlock tx of
        (msgBlock, Some err) \<Rightarrow> Inl err
      | (msgBlock, None) \<Rightarrow> addTransactions msgBlock rest)"

definition finishTemplate ::
  "('e, 'k, 'a, 'p, 'pk) Env \<Rightarrow> 'a option \<Rightarrow> 'pk \<Rightarrow> 'e Locals \<Rightarrow> error + BlockTemplate" where
  "finishTemplate env payToAddress validateKey st =
     (let best = BestSnapshot env;
          nextBlockHeight = best_Height best + 1;
          blockSize1 = blockSize st -
            (MaxVarIntPayload -
             word_of_int (VarIntSerializeSize (word_of_int (int (length (blockTxns st))))));
          coinbaseTx = blockTxns st ! 0;
          out0 = tx_TxOut coinbaseTx ! 0;
          out1 = out0\<lparr>Value := Value out0 + totalFees st\<rparr>;
          fees = (txFees st)[0 := - totalFees st]
      in case (if Value out1 = 0
               then (case Script (AddOp NewScriptBuilder OP_RETURN) of
                       Inl err \<Rightarrow> Inl err
                     | Inr nullScript \<Rightarrow>
                         Inr (blockSize1 -
                                word_of_int (int (length (PkScript out1)) - int (length nullScript)),
                              out1\<lparr>PkScript := nullScript\<rparr>))
               else Inr (blockSize1, out1)) of
           Inl err \<Rightarrow> Inl err
         | Inr shrunk \<Rightarrow>
            (let blockSize2 = fst shrunk;
                 out2 = snd shrunk;
                 txns = (blockTxns st)
                   [0 := coinbaseTx\<lparr>tx_TxOut := (tx_TxOut coinbaseTx)[0 := out2]\<rparr>];
                 ts = medianAdjustedTime best (AdjustedTime env (timeCalls st))
             in (case CalcNextRequiredDifficulty env of
                  Inl err \<Rightarrow> Inl err
                | Inr reqDifficulty \<Rightarrow>
                   (let merkles = BuildMerkleTreeStore env txns
                    in (case best_Hash best of
                         None \<Rightarrow> Inl (RuntimePanic ''nil pointer dereference'')
                       | Some prevHash \<Rightarrow>
                          (if merkles = [] then Inl (RuntimePanic ''index out of range'')
                           else
                            (case last merkles of
                               None \<Rightarrow> Inl (RuntimePanic ''nil pointer dereference'')
                             | Some merkleRoot \<Rightarrow>
                                (let header =
                                       \<lparr>hdr_Version = generatedBlockVersion,
                                        hdr_PrevBlock = prevHash,
                                        hdr_MerkleRoot = merkleRoot,
                                        hdr_Timestamp = ts,
                                        hdr_Bits = reqDifficulty,
                                        hdr_Height = nextBlockHeight,
                                        hdr_Size = blockSize2,
                                        hdr_Signature = []\<rparr>;
                                     header = fst (Sign env header validateKey)
                                 in (case addTransactions
                                           \<lparr>Header = header, Transactions = []\<rparr> txns of
                                      Inl err \<Rightarrow> Inl err
                                    | Inr msgBlock \<Rightarrow>
                                        (case CheckConnectBlock env msgBlock of
                                           Some err \<Rightarrow> Inl err
                                         | None \<Rightarrow>
                                             Inr \<lparr>Block = msgBlock,
                                                  Fees = fees,
                                                  SigOpCounts = txSigOpCounts st,
                                                  Height = nextBlockHeight,
                                                  ValidPayAddress =
                                                    (payToAddress \<noteq> None)\<rparr>))))))))))"

text \<open>\<open>NewBlockTemplate\<close>: \<open>None\<close> when it does not return, otherwise its two results.\<close>

definition NewBlockTemplate ::
  "('e, 'k, 'a, 'p, 'pk) Env \<Rightarrow> Policy \<Rightarrow> 'a option \<Rightarrow> 'pk \<Rightarrow> (error + BlockTemplate) option" where
  "NewBlockTemplate env policy payToAddress validateKey =
     (case selectTransactions env policy payToAddress of
        None \<Rightarrow> None
      | Some (Inl err) \<Rightarrow> Some (Inl err)
      | Some (Inr st) \<Rightarrow> Some (finishTemplate env payToAddress validateKey st))"

section \<open>UpdateBlockTime\<close>

text \<open>
  The result is the block as the call leaves it, and the error the call returns. The
  error of \<open>Sign\<close> is dropped, as in the source.
\<close>

definition UpdateBlockTime ::
  "('e, 'k, 'a, 'p, 'pk) Env \<Rightarrow> MsgBlock \<Rightarrow> 'pk \<Rightarrow> MsgBlock \<times> error option" where
  "UpdateBlockTime env msgBlock validateKey =
     (let best = BestSnapshot env;
          newTimestamp = medianAdjustedTime best (AdjustedTime env 0);
          header = (Header msgBlock)\<lparr>hdr_Timestamp := newTimestamp\<rparr>;
          signed = Sign env header validateKey
      in (msgBlock\<lparr>Header := fst signed\<rparr>, None))"

section \<open>Concrete inputs\<close>

text \<open>
  A small chain and source pool on which the definitions are run. A transaction is
  told apart by its lock time, which is also its hash. Scripts holding the byte
  \<open>0xff\<close> do not parse, and a script of two bytes is of the administrative class.
\<close>

definition exTx :: "nat \<Rightarrow> (nat \<times> nat) list \<Rightarrow> byte list list \<Rightarrow> MsgTx" where
  "exTx n ins scripts =
     \<lparr>tx_Version = 1,
      tx_TxIn = map (\<lambda>(h, i).
          \<lparr>PreviousOutPoint = \<lparr>op_Hash = of_nat h, op_Index = of_nat i\<rparr>,
           SignatureScript = [], Sequence = 0\<rparr>) ins,
      tx_TxOut = map (\<lambda>sc. \<lparr>Value = 1, PkScript = sc\<rparr>) scripts,
      tx_LockTime = of_nat n\<rparr>"

definition exEnv :: "(unit, unit, unit, nat, unit) Env" where
  "exEnv =
     \<lparr>BestSnapshot = \<lparr>best_Hash = Some 9, best_Height = 99, best_MedianTime = 1000 * Second\<rparr>,
      FetchUtxoView = (\<lambda>t. Inr (\<lambda>h. if h = 50 then Some (Some ()) else None)),
      CalcNextRequiredDifficulty = Inr 7,
      CheckConnectBlock = (\<lambda>b. None),
      chainKeyView = (),
      MiningDescs =
        [\<lparr>desc_Tx = exTx 1 [(50, 0)] [[0x51]], desc_Fee = 100\<rparr>,
         \<lparr>desc_Tx = exTx 2 [(1, 0)] [[0x51]], desc_Fee = 40\<rparr>],
      HaveTransaction = (\<lambda>h. h = 1 \<or> h = 2 \<or> h = 3),
      AdjustedTime = (\<lambda>n. 2000 * Second),
      CalcBlockSubsidy = (\<lambda>h. 5000),
      CountSigOps = (\<lambda>t. 1),
      CountP2SHSigOps = (\<lambda>t b v. Inr 0),
      IsCoinBase = (\<lambda>t. False),
      IsFinalizedTransaction = (\<lambda>t h n. True),
      CheckTransactionInputs = (\<lambda>t h v. None),
      CheckTransactionOutputs = (\<lambda>t k. None),
      ValidateTransactionScripts = (\<lambda>t v k. None),
      BuildMerkleTreeStore = (\<lambda>ts. [Some 77]),
      MaxSigOpsPerBlock = 20000,
      IsFullySpent = (\<lambda>e. False),
      IsOutputSpent = (\<lambda>e i. False),
      SpendOutput = (\<lambda>e i. e),
      AddTxOuts = (\<lambda>v t h. v),
      CalcPriority = (\<lambda>t v h. 0),
      MinHighPriority = 57600000,
      ParseScript = (\<lambda>sc. if 0xff \<in> set sc then Inl (Err ''malformed script'') else Inr (length sc)),
      TypeOfScript = (\<lambda>p. if p = 2 then ProvaAdminTy else OtherTy p),
      PayToAddrScript = (\<lambda>a. Inr [0x51]),
      TxHash = (\<lambda>t. ucast (tx_LockTime t)),
      SerializeSize = (\<lambda>t. 200),
      MaxBlockHeaderPayload = 169,
      SignatureOf = (\<lambda>h k. Inr [1]),
      rangeOrder = (\<lambda>al. al)\<rparr>"

definition exPolicy :: Policy where
  "exPolicy =
     \<lparr>BlockMinSize = 0, BlockMaxSize = 1000000, BlockPrioritySize = 0, TxMinFreeFee = 10\<rparr>"

text \<open>
  The runs of \<open>NewBlockTemplate\<close> on the example: the pool as it is (a parent and
  its child, both added), an empty pool, a policy whose \<open>BlockMaxSize\<close> the first
  transaction would reach exactly, and a time source that returns half a second past a
  whole second.
\<close>

definition exCoinbase :: "int64 \<Rightarrow> MsgTx" where
  "exCoinbase v =
     \<lparr>tx_Version = 1,
      tx_TxIn =
        [\<lparr>PreviousOutPoint = \<lparr>op_Hash = 0, op_Index = 0xffffffff\<rparr>,
          SignatureScript = [0x07, 0x2f, 0x70, 0x72, 0x6f, 0x76, 0x61, 0x2f],
          Sequence = 0xffffffff\<rparr>],
      tx_TxOut = [\<lparr>Value = v, PkScript = [0x51]\<rparr>],
      tx_LockTime = 100\<rparr>"

definition exTemplate :: BlockTemplate where
  "exTemplate =
     \<lparr>Block =
        \<lparr>Header =
           \<lparr>hdr_Version = 4, hdr_PrevBlock = 9, hdr_MerkleRoot = 77,
            hdr_Timestamp = 2000 * Second, hdr_Bits = 7, hdr_Height = 100,
            hdr_Size = 770, hdr_Signature = [1]\<rparr>,
         Transactions =
           [exCoinbase 5140, exTx 1 [(50, 0)] [[0x51]], exTx 2 [(1, 0)] [[0x51]]]\<rparr>,
      Fees = [- 140, 100, 40],
      SigOpCounts = [1, 1, 1],
      Height = 100,
      ValidPayAddress = False\<rparr>"

definition exEnvEmpty :: "(unit, unit, unit, nat, unit) Env" where
  "exEnvEmpty = exEnv\<lparr>MiningDescs := []\<rparr>"

definition exTemplateEmpty :: BlockTemplate where
  "exTemplateEmpty =
     \<lparr>Block =
        \<lparr>Header =
           \<lparr>hdr_Version = 4, hdr_PrevBlock = 9, hdr_MerkleRoot = 77,
            hdr_Timestamp = 2000 * Second, hdr_Bits = 7, hdr_Height = 100,
            hdr_Size = 370, hdr_Signature = [1]\<rparr>,
         Transactions = [exCoinbase 5000]\<rparr>,
      Fees = [0],
      SigOpCounts = [1],
      Height = 100,
      ValidPayAddress = False\<rparr>"

definition exPolicyTight :: Policy where
  "exPolicyTight = exPolicy\<lparr>BlockMaxSize := 578\<rparr>"



text \<open>An environment whose validator key cannot sign.\<close>

definition exEnvNoSign :: "(unit, unit, unit, nat, unit) Env" where
  "exEnvNoSign = exEnv\<lparr>SignatureOf := (\<lambda>h k. Inl (Err ''signing failed''))\<rparr>"

definition exBlock :: MsgBlock where
  "exBlock =
     \<lparr>Header =
        \<lparr>hdr_Version = 4, hdr_PrevBlock = 9, hdr_MerkleRoot = 77, hdr_Timestamp = 5,
         hdr_Bits = 7, hdr_Height = 100, hdr_Size = 378, hdr_Signature = [3]\<rparr>,
      Transactions = [exTx 100 [] [[0x51]]]\<rparr>"

text \<open>Two candidates: an administrative one, and an ordinary one that pays more.\<close>

definition exAdminItem :: txPrioItem where
  "exAdminItem =
     \<lparr>item_tx = exTx 1 [(50, 0)] [[0x51, 0x51]], item_fee = 1, item_priority = 1,
      item_feePerKB = 5, item_isAdmin = True, item_dependsOn = None\<rparr>"

definition exNormalItem :: txPrioItem where
  "exNormalItem =
     \<lparr>item_tx = exTx 2 [(50, 1)] [[0x51]], item_fee = 400, item_priority = 2,
      item_feePerKB = 2000, item_isAdmin = False, item_dependsOn = None\<rparr>"

text \<open>
  A pool of three: a parent, a transaction whose second input is neither in the chain
  view nor in the pool and whose third input spends the third transaction, and that
  third transaction, which is larger than any block may be.
\<close>

definition exStray :: MsgTx where
  "exStray = exTx 2 [(1, 0), (60, 0), (3, 0)] [[0x51]]"

definition exEnvStray :: "(unit, unit, unit, nat, unit) Env" where
  "exEnvStray = exEnv
     \<lparr>MiningDescs :=
        [\<lparr>desc_Tx = exTx 1 [(50, 0)] [[0x51]], desc_Fee = 100\<rparr>,
         \<lparr>desc_Tx = exStray, desc_Fee = 40\<rparr>,
         \<lparr>desc_Tx = exTx 3 [(50, 1)] [[0x51]], desc_Fee = 70\<rparr>],
      SerializeSize := (\<lambda>t. if tx_LockTime t = 3 then 2000000 else 200)\<rparr>"

definition exPolicyMinSize :: Policy where
  "exPolicyMinSize = exPolicy\<lparr>BlockMinSize := 1000\<rparr>"

text \<open>
  The example environment with an input check that looks every input up in the working
  view, and an \<open>AddTxOuts\<close> that enters the transaction under its hash.
\<close>

definition exEnvChecked :: "(unit, unit, unit, nat, unit) Env" where
  "exEnvChecked = exEnv
     \<lparr>CheckTransactionInputs := (\<lambda>t h v.
        if list_all (\<lambda>txIn. LookupEntry v (op_Hash (PreviousOutPoint txIn)) \<noteq> None) (tx_TxIn t)
        then None else Some (Err ''missing input'')),
      AddTxOuts := (\<lambda>v t h. v(ucast (tx_LockTime t) \<mapsto> Some ()))\<rparr>"

definition exEnvStrayChecked :: "(unit, unit, unit, nat, unit) Env" where
  "exEnvStrayChecked = exEnvChecked
     \<lparr>MiningDescs := MiningDescs exEnvStray, SerializeSize := SerializeSize exEnvStray\<rparr>"

definition exTemplateParent :: BlockTemplate where
  "exTemplateParent =
     \<lparr>Block =
        \<lparr>Header =
           \<lparr>hdr_Version = 4, hdr_PrevBlock = 9, hdr_MerkleRoot = 77,
            hdr_Timestamp = 2000 * Second, hdr_Bits = 7, hdr_Height = 100,
            hdr_Size = 570, hdr_Signature = [1]\<rparr>,
         Transactions = [exCoinbase 5100, exTx 1 [(50, 0)] [[0x51]]]\<rparr>,
      Fees = [- 100, 100],
      SigOpCounts = [1, 1],
      Height = 100,
      ValidPayAddress = False\<rparr>"
section \<open>Invariants of the loop that chooses the transactions\<close>

text \<open>
  What every pass of the loop keeps about the block under construction: the coinbase
  \<open>cb\<close> stays first, there is one fee per transaction, \<open>totalFees\<close> is the sum of the
  fees after the first, no call of the time source is made, and \<open>blockSize\<close> is the
  starting size \<open>size0\<close> until a transaction is added and below
  \<open>policy.BlockMaxSize\<close> afterwards.
\<close>

definition blockInv :: "Policy \<Rightarrow> MsgTx \<Rightarrow> uint32 \<Rightarrow> nat \<Rightarrow> 'e Locals \<Rightarrow> bool" where
  "blockInv policy cb size0 calls st \<longleftrightarrow>
     blockTxns st \<noteq> [] \<and> hd (blockTxns st) = cb \<and>
     length (txFees st) = length (blockTxns st) \<and>
     sum_list (tl (txFees st)) = totalFees st \<and>
     timeCalls st = calls \<and>
     (if length (blockTxns st) = 1 then blockSize st = size0
      else blockSize st < BlockMaxSize policy)"

text \<open>
  The spec's "adjusted time truncated to whole seconds". No function of mining.go
  truncates a time: the definition is used to state the claim only.
\<close>

definition truncateToSeconds :: "Time \<Rightarrow> Time" where
  "truncateToSeconds t = t - t mod Second"

subsection \<open>Dependencies\<close>

text \<open>
  The test of line 557: the chain view has no entry for the input's origin, or the
  output is spent there.
\<close>

definition inputMissing ::
  "('e, 'k, 'a, 'p, 'pk) Env \<Rightarrow> 'e UtxoViewpoint \<Rightarrow> TxIn \<Rightarrow> bool" where
  "inputMissing env utxos txIn =
     (case LookupEntry utxos (op_Hash (PreviousOutPoint txIn)) of
        None \<Rightarrow> True
      | Some utxoEntry \<Rightarrow> IsOutputSpent env utxoEntry (op_Index (PreviousOutPoint txIn)))"

text \<open>
  The hashes that \<open>setupDependencies\<close> puts into \<open>dependsOn\<close> for a list of inputs:
  the origins of the missing inputs, up to the first one that is not in the source
  pool either.
\<close>

fun recordedDeps ::
  "('e, 'k, 'a, 'p, 'pk) Env \<Rightarrow> 'e UtxoViewpoint \<Rightarrow> TxIn list \<Rightarrow> Hash list" where
  "recordedDeps env utxos [] = []"
| "recordedDeps env utxos (txIn # rest) =
     (if inputMissing env utxos txIn
      then if HaveTransaction env (op_Hash (PreviousOutPoint txIn))
           then op_Hash (PreviousOutPoint txIn) # recordedDeps env utxos rest
           else []
      else recordedDeps env utxos rest)"

definition recordedParents :: "('e, 'k, 'a, 'p, 'pk) Env \<Rightarrow> MsgTx \<Rightarrow> Hash list" where
  "recordedParents env tx =
     (case FetchUtxoView env tx of
        Inl err \<Rightarrow> []
      | Inr utxos \<Rightarrow> recordedDeps env utxos (tx_TxIn tx))"

definition pendingDeps :: "txPrioItem \<Rightarrow> Hash set" where
  "pendingDeps item = (case item_dependsOn item of None \<Rightarrow> {} | Some hs \<Rightarrow> set hs)"

definition depCount :: "txPrioItem \<Rightarrow> nat" where
  "depCount item = (case item_dependsOn item of None \<Rightarrow> 0 | Some hs \<Rightarrow> length hs)"

definition dependersOf :: "'e Locals \<Rightarrow> Hash \<Rightarrow> (Hash \<times> nat) list" where
  "dependersOf st h = (case dependers st h of None \<Rightarrow> [] | Some deps \<Rightarrow> deps)"

text \<open>
  Pointers are valid: a queued item exists and has no pending dependency, and a
  \<open>dependers\<close> entry points to an existing item.
\<close>

definition queueInv :: "'e Locals \<Rightarrow> bool" where
  "queueInv st \<longleftrightarrow>
     (\<forall>a \<in> set (items (priorityQueue st)).
        a < length (prioItems st) \<and> pendingDeps (prioItems st ! a) = {}) \<and>
     (\<forall>h. \<forall>d \<in> set (dependersOf st h). snd d < length (prioItems st))"

text \<open>
  The transaction at index \<open>i\<close> of \<open>txs\<close> has a chain view, and every parent recorded
  for it stands at an earlier index after the coinbase.
\<close>

definition afterParents :: "('e, 'k, 'a, 'p, 'pk) Env \<Rightarrow> MsgTx list \<Rightarrow> nat \<Rightarrow> bool" where
  "afterParents env txs i \<longleftrightarrow>
     (\<exists>utxos. FetchUtxoView env (txs ! i) = Inr utxos) \<and>
     (\<forall>h \<in> set (recordedParents env (txs ! i)).
        \<exists>j. 0 < j \<and> j < i \<and> TxHash env (txs ! j) = h)"

text \<open>
  Every recorded parent of an item is still pending or already in the block, and the
  block is in dependency order.
\<close>

definition depsInv :: "('e, 'k, 'a, 'p, 'pk) Env \<Rightarrow> 'e Locals \<Rightarrow> bool" where
  "depsInv env st \<longleftrightarrow>
     blockTxns st \<noteq> [] \<and>
     (\<forall>a < length (prioItems st).
        (\<exists>utxos. FetchUtxoView env (item_tx (prioItems st ! a)) = Inr utxos) \<and>
        set (recordedParents env (item_tx (prioItems st ! a)))
          \<subseteq> pendingDeps (prioItems st ! a) \<union> TxHash env ` set (tl (blockTxns st))) \<and>
     (\<forall>i. 0 < i \<and> i < length (blockTxns st) \<longrightarrow> afterParents env (blockTxns st) i)"

text \<open>
  Lines 569 to 579 as one update of the state: the item at \<open>a\<close> now depends on \<open>h\<close>,
  and is entered under \<open>h\<close> in \<open>dependers\<close>.
\<close>

definition registerDep ::
  "('e, 'k, 'a, 'p, 'pk) Env \<Rightarrow> nat \<Rightarrow> Hash \<Rightarrow> 'e Locals \<Rightarrow> 'e Locals" where
  "registerDep env a h st =
     st\<lparr>dependers := (dependers st)
           (h \<mapsto> AList.update (TxHash env (item_tx (prioItems st ! a))) a (dependersOf st h)),
        prioItems := (prioItems st)
           [a := (prioItems st ! a)
              \<lparr>item_dependsOn := Some (List.insert h
                 (case item_dependsOn (prioItems st ! a) of None \<Rightarrow> [] | Some hs \<Rightarrow> hs))\<rparr>]\<rparr>"

text \<open>
  Lines 767 to 770 as one update of the state: \<open>h\<close> is deleted from the dependencies
  of the item at \<open>a\<close>, and the item is pushed when none is left.
\<close>

definition releaseDep :: "Hash \<Rightarrow> nat \<Rightarrow> 'e Locals \<Rightarrow> 'e Locals" where
  "releaseDep h a st =
     (let item = (prioItems st ! a)
            \<lparr>item_dependsOn := map_option (removeAll h) (item_dependsOn (prioItems st ! a))\<rparr>;
          st = st\<lparr>prioItems := (prioItems st)[a := item]\<rparr>
      in if (case item_dependsOn item of None \<Rightarrow> True | Some hs \<Rightarrow> hs = [])
         then st\<lparr>priorityQueue := pq_heapPush (prioItems st) (priorityQueue st) a\<rparr>
         else st)"


subsection \<open>The working view\<close>

text \<open>
  The chain view fetched for some transaction of the source pool has an entry for
  \<open>h\<close>: the transaction of hash \<open>h\<close> is confirmed in the chain.
\<close>

definition inChainView :: "('e, 'k, 'a, 'p, 'pk) Env \<Rightarrow> Hash \<Rightarrow> bool" where
  "inChainView env h =
     list_ex (\<lambda>d. case FetchUtxoView env (desc_Tx d) of
                     Inl err \<Rightarrow> False
                   | Inr utxos \<Rightarrow> LookupEntry utxos h \<noteq> None)
       (MiningDescs env)"

text \<open>
  Every input of the transaction at index \<open>i\<close> of \<open>txs\<close> spends a transaction that
  is confirmed in the chain or stands at an earlier index after the coinbase.
\<close>

definition inputsKnown :: "('e, 'k, 'a, 'p, 'pk) Env \<Rightarrow> MsgTx list \<Rightarrow> nat \<Rightarrow> bool" where
  "inputsKnown env txs i \<longleftrightarrow>
     (\<forall>txIn \<in> set (tx_TxIn (txs ! i)).
        inChainView env (op_Hash (PreviousOutPoint txIn)) \<or>
        (\<exists>j. 0 < j \<and> j < i \<and> TxHash env (txs ! j) = op_Hash (PreviousOutPoint txIn)))"

text \<open>
  The entries of \<open>blockUtxos\<close> are those of the chain views merged into it and those
  of the transactions added to the block (lines 742 to 746).
\<close>

definition viewInv :: "('e, 'k, 'a, 'p, 'pk) Env \<Rightarrow> 'e Locals \<Rightarrow> bool" where
  "viewInv env st \<longleftrightarrow>
     blockTxns st \<noteq> [] \<and>
     (\<forall>h. LookupEntry (blockUtxos st) h \<noteq> None \<longrightarrow>
        inChainView env h \<or> h \<in> TxHash env ` set (tl (blockTxns st))) \<and>
     (\<forall>i. 0 < i \<and> i < length (blockTxns st) \<longrightarrow> inputsKnown env (blockTxns st) i)"

subsection \<open>Termination of the choosing loop\<close>

text \<open>
  The hash of the transaction of the item at \<open>a\<close>, and a hash that is done with: no
  item with this hash is queued or waits for a parent.
\<close>

definition itemHash :: "('e, 'k, 'a, 'p, 'pk) Env \<Rightarrow> 'e Locals \<Rightarrow> nat \<Rightarrow> Hash" where
  "itemHash env st a = TxHash env (item_tx (prioItems st ! a))"

definition retired :: "('e, 'k, 'a, 'p, 'pk) Env \<Rightarrow> 'e Locals \<Rightarrow> Hash \<Rightarrow> bool" where
  "retired env st h \<longleftrightarrow>
     (\<forall>a < length (prioItems st). itemHash env st a = h \<longrightarrow>
        a \<notin> set (items (priorityQueue st)) \<and> pendingDeps (prioItems st ! a) = {})"

text \<open>
  Pointers are valid, no item is queued twice, no two items have the same hash, and
  each inner map of \<open>dependers\<close> has one entry per key, the key being the hash of the
  item of the entry.
\<close>

definition baseInv :: "('e, 'k, 'a, 'p, 'pk) Env \<Rightarrow> 'e Locals \<Rightarrow> bool" where
  "baseInv env st \<longleftrightarrow>
     queueInv st \<and>
     distinct (items (priorityQueue st)) \<and>
     distinct (map (\<lambda>item. TxHash env (item_tx item)) (prioItems st)) \<and>
     (\<forall>h. distinct (map fst (dependersOf st h)) \<and>
          (\<forall>d \<in> set (dependersOf st h). fst d = itemHash env st (snd d)))"

text \<open>
  After the first loop every item entered under \<open>h\<close> still waits for \<open>h\<close>; in the
  second loop it does unless \<open>h\<close> is done with.
\<close>

definition buildInv :: "('e, 'k, 'a, 'p, 'pk) Env \<Rightarrow> 'e Locals \<Rightarrow> bool" where
  "buildInv env st \<longleftrightarrow>
     baseInv env st \<and>
     (\<forall>h. \<forall>d \<in> set (dependersOf st h). h \<in> pendingDeps (prioItems st ! snd d))"

definition termInv :: "('e, 'k, 'a, 'p, 'pk) Env \<Rightarrow> 'e Locals \<Rightarrow> bool" where
  "termInv env st \<longleftrightarrow>
     baseInv env st \<and>
     (\<forall>h. \<forall>d \<in> set (dependersOf st h).
        h \<in> pendingDeps (prioItems st ! snd d) \<or> retired env st h)"

text \<open>
  What every pass of the loop makes smaller: the queued items, the items that wait
  for a parent, and one more while the queue is ordered by priority.
\<close>

definition waiting :: "txPrioItem \<Rightarrow> nat" where
  "waiting item = (if pendingDeps item = {} then 0 else 1)"

definition passesLeft :: "'e Locals \<Rightarrow> nat" where
  "passesLeft st =
     length (items (priorityQueue st)) + sum_list (map waiting (prioItems st)) +
     (if sortedByFee st then 0 else 1)"
section \<open>The heap keeps the elements of the queue\<close>

declare heap_up.simps [simp del] heap_down.simps [simp del]

lemma length_pq_Swap [simp]: "length (pq_Swap xs i j) = length xs"
  by (simp add: pq_Swap_def)

lemma mset_pq_Swap: "i < length xs \<Longrightarrow> j < length xs \<Longrightarrow> mset (pq_Swap xs i j) = mset xs"
  unfolding pq_Swap_def by (rule mset_swap)

lemma nth_pq_Swap_other: "k \<noteq> i \<Longrightarrow> k \<noteq> j \<Longrightarrow> pq_Swap xs i j ! k = xs ! k"
  by (simp add: pq_Swap_def)

lemma heap_up_props:
  "j < length xs \<Longrightarrow> length (heap_up lt xs j) = length xs \<and> mset (heap_up lt xs j) = mset xs"
proof (induction lt xs j rule: heap_up.induct)
  case (1 lt xs j)
  show ?case
  proof (cases "(j - 1) div 2 \<noteq> j \<and> lt xs j ((j - 1) div 2)")
    case True
    have lt: "(j - 1) div 2 < length xs" using "1.prems" by simp
    from "1.IH"[OF refl True] lt
    have "length (heap_up lt (pq_Swap xs ((j - 1) div 2) j) ((j - 1) div 2)) = length xs
        \<and> mset (heap_up lt (pq_Swap xs ((j - 1) div 2) j) ((j - 1) div 2)) = mset (pq_Swap xs ((j - 1) div 2) j)"
      by simp
    with True lt "1.prems" show ?thesis
      by (subst (1 2) heap_up.simps) (simp add: Let_def mset_pq_Swap)
  next
    case False
    then show ?thesis by (subst (1 2) heap_up.simps) (auto simp: Let_def)
  qed
qed

lemma heap_down_props:
  "n \<le> length xs \<Longrightarrow>
   length (heap_down lt xs i n) = length xs \<and> mset (heap_down lt xs i n) = mset xs \<and>
   (\<forall>k. n \<le> k \<longrightarrow> heap_down lt xs i n ! k = xs ! k)"
proof (induction lt xs i n rule: heap_down.induct)
  case (1 lt xs i n)
  define j1 where "j1 = 2 * i + 1"
  define j where "j = (if j1 + 1 < n \<and> lt xs (j1 + 1) j1 then j1 + 1 else j1)"
  show ?case
  proof (cases "\<not> n \<le> j1 \<and> lt xs j i")
    case True
    then have jn: "j < n" and ij: "i < j" by (auto simp: j_def j1_def)
    have IH: "length (heap_down lt (pq_Swap xs i j) j n) = length xs \<and>
        mset (heap_down lt (pq_Swap xs i j) j n) = mset (pq_Swap xs i j) \<and>
        (\<forall>k. n \<le> k \<longrightarrow> heap_down lt (pq_Swap xs i j) j n ! k = pq_Swap xs i j ! k)"
      using "1.IH"[OF j1_def[symmetric, THEN sym] _ j_def[symmetric, THEN sym]] True "1.prems"
      by (simp add: j1_def)
    have "heap_down lt xs i n =
        (if n \<le> j1 then xs else if lt xs j i then heap_down lt (pq_Swap xs i j) j n else xs)"
      by (subst heap_down.simps, unfold Let_def j_def j1_def, rule refl)
    then have eq: "heap_down lt xs i n = heap_down lt (pq_Swap xs i j) j n"
      using True by simp
    show ?thesis
      using IH jn ij "1.prems" by (simp add: eq mset_pq_Swap nth_pq_Swap_other)
  next
    case False
    have "heap_down lt xs i n =
        (if n \<le> j1 then xs else if lt xs j i then heap_down lt (pq_Swap xs i j) j n else xs)"
      by (subst heap_down.simps, unfold Let_def j_def j1_def, rule refl)
    with False have "heap_down lt xs i n = xs"
      by auto
    then show ?thesis by simp
  qed
qed

lemma heap_Init_props: "length (heap_Init lt xs) = length xs \<and> mset (heap_Init lt xs) = mset xs"
proof -
  have "length (fold (\<lambda>i ys. heap_down lt ys i n) is xs) = length xs \<and>
        mset (fold (\<lambda>i ys. heap_down lt ys i n) is xs) = mset xs" if "n \<le> length xs" for n "is"
    using that by (induction "is" arbitrary: xs) (simp_all add: heap_down_props)
  then show ?thesis by (simp add: heap_Init_def)
qed

lemma mset_heap_Push: "mset (heap_Push lt xs x) = add_mset x (mset xs)"
  by (simp add: heap_Push_def heap_up_props)

lemma heap_Pop_props:
  assumes "xs \<noteq> []"
  shows "fst (heap_Pop lt xs) = hd xs" and "add_mset (hd xs) (mset (snd (heap_Pop lt xs))) = mset xs"
proof -
  define n where "n = length xs - 1"
  define ys where "ys = heap_down lt (pq_Swap xs 0 n) 0 n"
  have n: "n < length xs" using assms by (simp add: n_def)
  have P: "length ys = length xs" "mset ys = mset xs" "ys ! n = pq_Swap xs 0 n ! n"
    using heap_down_props[of n "pq_Swap xs 0 n" lt 0] n mset_pq_Swap[of 0 xs n] assms
    by (simp_all add: ys_def)
  have ysne: "ys \<noteq> []" using P(1) assms by auto
  have "last ys = ys ! n" using P(1) ysne by (simp add: last_conv_nth n_def)
  also have "\<dots> = xs ! 0" using P(3) n by (simp add: pq_Swap_def)
  finally have l: "last ys = hd xs" using assms by (simp add: hd_conv_nth)
  have pop: "heap_Pop lt xs = (last ys, butlast ys)"
    unfolding heap_Pop_def Let_def ys_def n_def by (rule refl)
  show "fst (heap_Pop lt xs) = hd xs"
    by (simp add: pop l)
  have "mset ys = add_mset (last ys) (mset (butlast ys))"
    using ysne by (metis append_butlast_last_id mset.simps(2) mset_append union_mset_add_mset_right add.right_neutral mset.simps(1))
  then show "add_mset (hd xs) (mset (snd (heap_Pop lt xs))) = mset xs"
    using P(2) by (simp add: pop l)
qed

section \<open>One pass of the choosing loop, by cases\<close>

lemma mset_items_SetLessFunc: "mset (items (SetLessFunc store pq f)) = mset (items pq)"
  by (simp add: SetLessFunc_def Let_def heap_Init_props)

lemma mset_items_pq_heapPush:
  "mset (items (pq_heapPush store pq a)) = add_mset a (mset (items pq))"
  by (simp add: pq_heapPush_def mset_heap_Push)

lemma pq_heapPop_props:
  assumes "items pq \<noteq> []"
  shows "fst (pq_heapPop store pq) = hd (items pq)"
    and "add_mset (hd (items pq)) (mset (items (snd (pq_heapPop store pq)))) = mset (items pq)"
  using heap_Pop_props[OF assms, of "pq_Less store pq"]
  by (auto simp: pq_heapPop_def Let_def split: prod.splits)

lemma promoteDeps_frame:
  "dependers (promoteDeps h deps st) = dependers st \<and>
   blockUtxos (promoteDeps h deps st) = blockUtxos st \<and>
   blockTxns (promoteDeps h deps st) = blockTxns st \<and>
   txFees (promoteDeps h deps st) = txFees st \<and>
   txSigOpCounts (promoteDeps h deps st) = txSigOpCounts st \<and>
   blockSize (promoteDeps h deps st) = blockSize st \<and>
   blockSigOps (promoteDeps h deps st) = blockSigOps st \<and>
   totalFees (promoteDeps h deps st) = totalFees st \<and>
   sortedByFee (promoteDeps h deps st) = sortedByFee st \<and>
   timeCalls (promoteDeps h deps st) = timeCalls st"
  by (induction deps arbitrary: st) (simp_all add: Let_def)

lemma addToBlock_fields:
  "dependers (addToBlock env h a n st) = dependers st"
  "blockTxns (addToBlock env h a n st) = blockTxns st @ [item_tx (prioItems st ! a)]"
  "txFees (addToBlock env h a n st) = txFees st @ [item_fee (prioItems st ! a)]"
  "txSigOpCounts (addToBlock env h a n st) = txSigOpCounts st @ [n]"
  "blockSize (addToBlock env h a n st) =
     blockSize st + word_of_int (SerializeSize env (item_tx (prioItems st ! a)))"
  "blockSigOps (addToBlock env h a n st) = blockSigOps st + n"
  "totalFees (addToBlock env h a n st) = totalFees st + item_fee (prioItems st ! a)"
  "sortedByFee (addToBlock env h a n st) = sortedByFee st"
  "timeCalls (addToBlock env h a n st) = timeCalls st"
  by (simp_all add: addToBlock_def Let_def promoteDeps_frame)

lemma checkAndAdd_cases:
  obtains (reject) "checkAndAdd env h a n st = st"
  | (add) "checkAndAdd env h a n st = addToBlock env h a n st"
proof -
  have "checkAndAdd env h a n st = st \<or> checkAndAdd env h a n st = addToBlock env h a n st"
    by (simp add: checkAndAdd_def Let_def)
  then show thesis using reject add by blast
qed

lemma switchToFee_cases:
  obtains (requeue) "\<not> sortedByFee st"
      "switchToFee env policy h a bp n st =
         st\<lparr>sortedByFee := True,
            priorityQueue := pq_heapPush (prioItems st)
              (SetLessFunc (prioItems st) (priorityQueue st) txPQByFee) a\<rparr>"
  | (switch) "\<not> sortedByFee st"
      "switchToFee env policy h a bp n st =
         checkAndAdd env h a n
           (st\<lparr>sortedByFee := True,
               priorityQueue := SetLessFunc (prioItems st) (priorityQueue st) txPQByFee\<rparr>)"
  | (stay) "switchToFee env policy h a bp n st = checkAndAdd env h a n st"
proof -
  have "(\<not> sortedByFee st \<and>
      switchToFee env policy h a bp n st =
         st\<lparr>sortedByFee := True,
            priorityQueue := pq_heapPush (prioItems st)
              (SetLessFunc (prioItems st) (priorityQueue st) txPQByFee) a\<rparr>) \<or>
     (\<not> sortedByFee st \<and>
      switchToFee env policy h a bp n st =
         checkAndAdd env h a n
           (st\<lparr>sortedByFee := True,
               priorityQueue := SetLessFunc (prioItems st) (priorityQueue st) txPQByFee\<rparr>)) \<or>
     switchToFee env policy h a bp n st = checkAndAdd env h a n st"
    by (simp add: switchToFee_def Let_def)
  then show thesis using requeue switch stay by blast
qed

lemma assemblyStep_gates:
  obtains (skip)
      "assemblyStep env policy h st =
         st\<lparr>priorityQueue := snd (pq_heapPop (prioItems st) (priorityQueue st))\<rparr>"
  | (pass) n where
      "assemblyStep env policy h st =
         switchToFee env policy h (fst (pq_heapPop (prioItems st) (priorityQueue st)))
           (blockSize st + word_of_int (SerializeSize env (item_tx (prioItems st !
               fst (pq_heapPop (prioItems st) (priorityQueue st))))))
           n (st\<lparr>priorityQueue := snd (pq_heapPop (prioItems st) (priorityQueue st))\<rparr>)"
      "blockSize st \<le> blockSize st + word_of_int (SerializeSize env (item_tx (prioItems st !
               fst (pq_heapPop (prioItems st) (priorityQueue st)))))"
      "blockSize st + word_of_int (SerializeSize env (item_tx (prioItems st !
               fst (pq_heapPop (prioItems st) (priorityQueue st))))) < BlockMaxSize policy"
proof -
  have "assemblyStep env policy h st =
         st\<lparr>priorityQueue := snd (pq_heapPop (prioItems st) (priorityQueue st))\<rparr> \<or>
     (\<exists>n. assemblyStep env policy h st =
         switchToFee env policy h (fst (pq_heapPop (prioItems st) (priorityQueue st)))
           (blockSize st + word_of_int (SerializeSize env (item_tx (prioItems st !
               fst (pq_heapPop (prioItems st) (priorityQueue st))))))
           n (st\<lparr>priorityQueue := snd (pq_heapPop (prioItems st) (priorityQueue st))\<rparr>) \<and>
        blockSize st \<le> blockSize st + word_of_int (SerializeSize env (item_tx (prioItems st !
               fst (pq_heapPop (prioItems st) (priorityQueue st))))) \<and>
        blockSize st + word_of_int (SerializeSize env (item_tx (prioItems st !
               fst (pq_heapPop (prioItems st) (priorityQueue st))))) < BlockMaxSize policy)"
    by (auto simp: assemblyStep_def Let_def not_less not_le split: sum.splits)
  then show thesis using skip pass by blast
qed

lemma assemblyStep_cases [consumes 1, case_names skip requeue accept]:
  assumes ne: "items (priorityQueue st) \<noteq> []"
  obtains (skip) pq b where
      "assemblyStep env policy h st = st\<lparr>priorityQueue := pq, sortedByFee := b\<rparr>"
      "add_mset (hd (items (priorityQueue st))) (mset (items pq)) = mset (items (priorityQueue st))"
      "sortedByFee st \<longrightarrow> b"
  | (requeue) pq where
      "assemblyStep env policy h st = st\<lparr>priorityQueue := pq, sortedByFee := True\<rparr>"
      "mset (items pq) = mset (items (priorityQueue st))"
      "\<not> sortedByFee st"
  | (accept) pq b n where
      "assemblyStep env policy h st =
         addToBlock env h (hd (items (priorityQueue st))) n
           (st\<lparr>priorityQueue := pq, sortedByFee := b\<rparr>)"
      "add_mset (hd (items (priorityQueue st))) (mset (items pq)) = mset (items (priorityQueue st))"
      "sortedByFee st \<longrightarrow> b"
      "blockSize st \<le> blockSize st + word_of_int (SerializeSize env (item_tx (prioItems st !
               hd (items (priorityQueue st)))))"
      "blockSize st + word_of_int (SerializeSize env (item_tx (prioItems st !
               hd (items (priorityQueue st))))) < BlockMaxSize policy"
proof -
  let ?popped = "pq_heapPop (prioItems st) (priorityQueue st)"
  let ?a = "hd (items (priorityQueue st))"
  let ?st1 = "st\<lparr>priorityQueue := snd ?popped\<rparr>"
  let ?pqf = "SetLessFunc (prioItems st) (snd ?popped) txPQByFee"
  have a: "fst ?popped = ?a"
    and m: "add_mset ?a (mset (items (snd ?popped))) = mset (items (priorityQueue st))"
    using pq_heapPop_props[OF ne] by simp_all
  have mf: "add_mset ?a (mset (items ?pqf)) = mset (items (priorityQueue st))"
    using m by (simp add: mset_items_SetLessFunc)
  show thesis
  proof (cases rule: assemblyStep_gates[of env policy h st])
    case skip
    then have "assemblyStep env policy h st =
        st\<lparr>priorityQueue := snd ?popped, sortedByFee := sortedByFee st\<rparr>"
      by simp
    from that(1)[OF this m] show thesis by simp
  next
    case (pass n)
    note step = pass(1)[unfolded a]
    note sz = pass(2,3)[unfolded a]
    show thesis
    proof (cases rule: switchToFee_cases[of ?st1 env policy h ?a
          "blockSize st + word_of_int (SerializeSize env (item_tx (prioItems st ! ?a)))" n])
      case requeue
      then have e: "assemblyStep env policy h st =
          st\<lparr>priorityQueue := pq_heapPush (prioItems st) ?pqf ?a, sortedByFee := True\<rparr>"
        using step by simp
      have "mset (items (pq_heapPush (prioItems st) ?pqf ?a)) =
          mset (items (priorityQueue st))"
        using mf by (simp add: mset_items_pq_heapPush)
      from that(2)[OF e this] requeue(1) show thesis by simp
    next
      case switch
      let ?st2 = "st\<lparr>sortedByFee := True, priorityQueue := ?pqf\<rparr>"
      have r: "?st2 = st\<lparr>priorityQueue := ?pqf, sortedByFee := True\<rparr>"
        by simp
      have sw: "assemblyStep env policy h st = checkAndAdd env h ?a n ?st2"
        using switch step by simp
      show thesis
      proof (cases rule: checkAndAdd_cases[of env h ?a n ?st2])
        case reject
        with sw have "assemblyStep env policy h st = st\<lparr>priorityQueue := ?pqf, sortedByFee := True\<rparr>"
          by simp
        from that(1)[OF this mf] show thesis by simp
      next
        case add
        with sw have "assemblyStep env policy h st = addToBlock env h ?a n ?st2"
          by simp
        then have "assemblyStep env policy h st =
            addToBlock env h ?a n (st\<lparr>priorityQueue := ?pqf, sortedByFee := True\<rparr>)"
          by (simp only: r)
        from that(3)[OF this mf _ sz] show thesis by simp
      qed
    next
      case stay
      have r: "?st1 = st\<lparr>priorityQueue := snd ?popped, sortedByFee := sortedByFee st\<rparr>"
        by simp
      have sw: "assemblyStep env policy h st = checkAndAdd env h ?a n ?st1"
        using stay step by simp
      show thesis
      proof (cases rule: checkAndAdd_cases[of env h ?a n ?st1])
        case reject
        with sw have "assemblyStep env policy h st =
            st\<lparr>priorityQueue := snd ?popped, sortedByFee := sortedByFee st\<rparr>"
          by simp
        from that(1)[OF this m] show thesis by simp
      next
        case add
        with sw have "assemblyStep env policy h st = addToBlock env h ?a n ?st1"
          by simp
        then have "assemblyStep env policy h st =
            addToBlock env h ?a n (st\<lparr>priorityQueue := snd ?popped, sortedByFee := sortedByFee st\<rparr>)"
          by (simp only: r[symmetric])
        from that(3)[OF this m _ sz] show thesis by simp
      qed
    qed
  qed
qed

lemma assemblyLoop_rule:
  assumes run: "assemblyLoop env policy h st = Some st'"
    and init: "P st"
    and step: "\<And>s. P s \<Longrightarrow> items (priorityQueue s) \<noteq> [] \<Longrightarrow> P (assemblyStep env policy h s)"
  shows "P st' \<and> items (priorityQueue st') = []"
proof -
  have "env = env \<longrightarrow> policy = policy \<longrightarrow> h = h \<longrightarrow> P st \<longrightarrow>
        P st' \<and> items (priorityQueue st') = []"
  proof (rule assemblyLoop.raw_induct[where P = "\<lambda>e p hh s s'.
      e = env \<longrightarrow> p = policy \<longrightarrow> hh = h \<longrightarrow> P s \<longrightarrow> P s' \<and> items (priorityQueue s') = []", OF _ run])
    fix loop e p hh s s'
    assume IH: "\<And>e p hh s s'. loop e p hh s = Some s' \<Longrightarrow>
        e = env \<longrightarrow> p = policy \<longrightarrow> hh = h \<longrightarrow> P s \<longrightarrow> P s' \<and> items (priorityQueue s') = []"
    assume eq: "(if items (priorityQueue s) = [] then Some s
         else loop e p hh (assemblyStep e p hh s)) = Some s'"
    show "e = env \<longrightarrow> p = policy \<longrightarrow> hh = h \<longrightarrow> P s \<longrightarrow> P s' \<and> items (priorityQueue s') = []"
    proof (cases "items (priorityQueue s) = []")
      case True
      with eq show ?thesis by auto
    next
      case False
      with eq have "loop e p hh (assemblyStep e p hh s) = Some s'" by simp
      from IH[OF this] False step show ?thesis by auto
    qed
  qed
  with init show ?thesis by simp
qed

section \<open>What the first loop and the helpers leave unchanged\<close>

lemma Script_AddOp [simp]: "Script (AddOp NewScriptBuilder opcode) = Inr [opcode]"
  by (simp add: Script_def AddOp_def NewScriptBuilder_def)

lemma addTransactions_eq:
  "addTransactions msgBlock txns = Inr (msgBlock\<lparr>Transactions := Transactions msgBlock @ txns\<rparr>)"
  by (induction txns arbitrary: msgBlock) (simp_all add: AddTransaction_def)

lemma setupDependencies_frame:
  "priorityQueue (snd (setupDependencies env utxos a ins st)) = priorityQueue st \<and>
   blockUtxos (snd (setupDependencies env utxos a ins st)) = blockUtxos st \<and>
   blockTxns (snd (setupDependencies env utxos a ins st)) = blockTxns st \<and>
   txFees (snd (setupDependencies env utxos a ins st)) = txFees st \<and>
   txSigOpCounts (snd (setupDependencies env utxos a ins st)) = txSigOpCounts st \<and>
   blockSize (snd (setupDependencies env utxos a ins st)) = blockSize st \<and>
   blockSigOps (snd (setupDependencies env utxos a ins st)) = blockSigOps st \<and>
   totalFees (snd (setupDependencies env utxos a ins st)) = totalFees st \<and>
   sortedByFee (snd (setupDependencies env utxos a ins st)) = sortedByFee st \<and>
   timeCalls (snd (setupDependencies env utxos a ins st)) = timeCalls st \<and>
   length (prioItems (snd (setupDependencies env utxos a ins st))) = length (prioItems st)"
  by (induction ins arbitrary: st) (simp_all add: Let_def)

lemma completePrioItem_frame:
  assumes "completePrioItem env h txDesc utxos a st = Inr st'"
  shows "blockTxns st' = blockTxns st \<and> txFees st' = txFees st \<and>
   txSigOpCounts st' = txSigOpCounts st \<and> blockSize st' = blockSize st \<and>
   blockSigOps st' = blockSigOps st \<and> totalFees st' = totalFees st \<and>
   sortedByFee st' = sortedByFee st \<and> timeCalls st' = timeCalls st \<and>
   dependers st' = dependers st"
  using assms by (auto simp: completePrioItem_def Let_def split: if_splits)

lemma mempoolStep_frame:
  assumes "mempoolStep env h txDesc st = Inr st'"
  shows "blockTxns st' = blockTxns st \<and> txFees st' = txFees st \<and>
   txSigOpCounts st' = txSigOpCounts st \<and> blockSize st' = blockSize st \<and>
   blockSigOps st' = blockSigOps st \<and> totalFees st' = totalFees st \<and>
   sortedByFee st' = sortedByFee st \<and>
   timeCalls st' = timeCalls st + (if IsCoinBase env (desc_Tx txDesc) then 0 else 1)"
proof (cases "IsCoinBase env (desc_Tx txDesc)")
  case True
  with assms show ?thesis by (simp add: mempoolStep_def)
next
  case False
  let ?st1 = "st\<lparr>timeCalls := Suc (timeCalls st)\<rparr>"
  show ?thesis
  proof (cases "IsFinalizedTransaction env (desc_Tx txDesc) h (AdjustedTime env (timeCalls st))")
    case nf: False
    with False assms show ?thesis by (auto simp: mempoolStep_def Let_def)
  next
    case fin: True
    show ?thesis
    proof (cases "FetchUtxoView env (desc_Tx txDesc)")
      case (Inl err)
      with False fin assms show ?thesis by (auto simp: mempoolStep_def Let_def)
    next
      case (Inr utxos)
      let ?st2 = "?st1\<lparr>prioItems := prioItems ?st1 @ [newPrioItem (desc_Tx txDesc)]\<rparr>"
      let ?sc = "setupDependencies env utxos (length (prioItems ?st1)) (tx_TxIn (desc_Tx txDesc)) ?st2"
      note fr = setupDependencies_frame[of env utxos "length (prioItems ?st1)" "tx_TxIn (desc_Tx txDesc)" ?st2]
      show ?thesis
      proof (cases "fst ?sc")
        case False
        with \<open>\<not> IsCoinBase env (desc_Tx txDesc)\<close> fin Inr assms have "st' = snd ?sc"
          by (simp add: mempoolStep_def Let_def)
        with fr \<open>\<not> IsCoinBase env (desc_Tx txDesc)\<close> show ?thesis by simp
      next
        case True
        with \<open>\<not> IsCoinBase env (desc_Tx txDesc)\<close> fin Inr assms
        have "completePrioItem env h txDesc utxos (length (prioItems ?st1)) (snd ?sc) = Inr st'"
          by (simp add: mempoolStep_def Let_def)
        from completePrioItem_frame[OF this] fr \<open>\<not> IsCoinBase env (desc_Tx txDesc)\<close>
        show ?thesis by simp
      qed
    qed
  qed
qed

lemma mempoolLoop_frame:
  assumes "mempoolLoop env h descs st = Inr st'"
  shows "blockTxns st' = blockTxns st \<and> txFees st' = txFees st \<and>
   txSigOpCounts st' = txSigOpCounts st \<and> blockSize st' = blockSize st \<and>
   blockSigOps st' = blockSigOps st \<and> totalFees st' = totalFees st \<and>
   sortedByFee st' = sortedByFee st \<and>
   timeCalls st' = timeCalls st + length (filter (\<lambda>d. \<not> IsCoinBase env (desc_Tx d)) descs)"
  using assms
proof (induction descs arbitrary: st)
  case Nil
  then show ?case by simp
next
  case (Cons d descs)
  from Cons.prems obtain st1 where s1: "mempoolStep env h d st = Inr st1"
    and l: "mempoolLoop env h descs st1 = Inr st'"
    by (auto split: sum.splits)
  from mempoolStep_frame[OF s1] Cons.IH[OF l] show ?case by simp
qed

section \<open>The block under construction\<close>

lemma blockInv_step:
  assumes inv: "blockInv policy cb size0 calls st" and ne: "items (priorityQueue st) \<noteq> []"
  shows "blockInv policy cb size0 calls (assemblyStep env policy h st)"
  using ne
proof (cases rule: assemblyStep_cases[where env=env and policy=policy and h=h])
  case (skip pq b)
  with inv show ?thesis by (simp add: blockInv_def)
next
  case (requeue pq)
  with inv show ?thesis by (simp add: blockInv_def)
next
  case (accept pq b n)
  from inv have "blockTxns st \<noteq> []" by (simp add: blockInv_def)
  then have "txFees st \<noteq> []" using inv by (auto simp: blockInv_def)
  with accept inv show ?thesis
    by (auto simp: blockInv_def addToBlock_fields)
qed

lemma createCoinbaseTx_Inr:
  assumes "createCoinbaseTx env script h addr = Inr cb"
  shows "\<exists>pk. tx_TxOut cb = [\<lparr>Value = CalcBlockSubsidy env h, PkScript = pk\<rparr>] \<and>
           (addr = None \<longrightarrow> pk = [OP_TRUE])"
  using assms by (auto simp: createCoinbaseTx_def split: sum.splits option.splits)

lemma selectTransactions_Inr:
  assumes "selectTransactions env policy addr = Some (Inr st)"
  obtains script cb where
    "standardCoinbaseScript = Inr script"
    "createCoinbaseTx env script (best_Height (BestSnapshot env) + 1) addr = Inr cb"
    "blockInv policy cb (blockHeaderOverhead env + word_of_int (SerializeSize env cb))
       (length (filter (\<lambda>d. \<not> IsCoinBase env (desc_Tx d)) (MiningDescs env))) st"
    "items (priorityQueue st) = []"
proof -
  let ?h = "best_Height (BestSnapshot env) + 1"
  from assms obtain script cb st1 where
    sc: "standardCoinbaseScript = Inr script"
    and cb: "createCoinbaseTx env script ?h addr = Inr cb"
    and ml: "mempoolLoop env ?h (MiningDescs env) (initialLocals env policy cb) = Inr st1"
    and al: "assemblyLoop env policy ?h st1 = Some st"
    by (auto simp: selectTransactions_def Let_def split: sum.splits option.splits)
  let ?P = "blockInv policy cb (blockHeaderOverhead env + word_of_int (SerializeSize env cb))
       (length (filter (\<lambda>d. \<not> IsCoinBase env (desc_Tx d)) (MiningDescs env)))"
  have "?P st1"
    using mempoolLoop_frame[OF ml] by (simp add: blockInv_def initialLocals_def Let_def)
  from assemblyLoop_rule[of env policy ?h st1 st ?P, OF al this blockInv_step]
  have "?P st" "items (priorityQueue st) = []" by simp_all
  with sc cb show thesis by (rule that)
qed

lemma NewBlockTemplate_Inr:
  assumes "NewBlockTemplate env policy addr key = Some (Inr tmpl)"
  obtains st where "selectTransactions env policy addr = Some (Inr st)"
    "finishTemplate env addr key st = Inr tmpl"
  using assms by (auto simp: NewBlockTemplate_def split: option.splits sum.splits)

text \<open>The template that \<open>finishTemplate\<close> returns, field by field.\<close>

lemma finishTemplate_Inr:
  assumes fin: "finishTemplate env addr key st = Inr tmpl"
  defines "out0 \<equiv> tx_TxOut (blockTxns st ! 0) ! 0"
  defines "v \<equiv> Value out0 + totalFees st"
  shows "Fees tmpl = (txFees st)[0 := - totalFees st]"
    and "SigOpCounts tmpl = txSigOpCounts st"
    and "Height tmpl = best_Height (BestSnapshot env) + 1"
    and "ValidPayAddress tmpl = (addr \<noteq> None)"
    and "Transactions (Block tmpl) =
           (blockTxns st)[0 := (blockTxns st ! 0)\<lparr>tx_TxOut := (tx_TxOut (blockTxns st ! 0))
              [0 := (if v = 0 then out0\<lparr>Value := v, PkScript := [OP_RETURN]\<rparr>
                     else out0\<lparr>Value := v\<rparr>)]\<rparr>]"
    and "hdr_Timestamp (Header (Block tmpl)) =
           medianAdjustedTime (BestSnapshot env) (AdjustedTime env (timeCalls st))"
    and "hdr_Size (Header (Block tmpl)) =
           blockSize st -
           (MaxVarIntPayload -
            word_of_int (VarIntSerializeSize (word_of_int (int (length (blockTxns st)))))) -
           (if v = 0 then word_of_int (int (length (PkScript out0)) - int (length [OP_RETURN]))
            else 0)"
    and "hdr_Version (Header (Block tmpl)) = generatedBlockVersion"
    and "hdr_Height (Header (Block tmpl)) = best_Height (BestSnapshot env) + 1"
  using fin unfolding out0_def v_def
  by (auto simp: finishTemplate_def Let_def addTransactions_eq Sign_def
      split: sum.splits option.splits if_splits)

section \<open>The returned template\<close>

lemma exRun: "NewBlockTemplate exEnv exPolicy None () = Some (Inr exTemplate)"
  by code_simp

lemma exRunEmpty: "NewBlockTemplate exEnvEmpty exPolicy None () = Some (Inr exTemplateEmpty)"
  by code_simp

lemma exRunTight: "NewBlockTemplate exEnv exPolicyTight None () = Some (Inr exTemplateEmpty)"
  by code_simp


text \<open>What a successful run gives: the state after the loop, its invariant, the template.\<close>

lemma NewBlockTemplate_success:
  assumes "NewBlockTemplate env policy addr key = Some (Inr tmpl)"
  obtains st cb pk rest where
    "selectTransactions env policy addr = Some (Inr st)"
    "finishTemplate env addr key st = Inr tmpl"
    "blockTxns st = cb # rest"
    "tx_TxOut cb = [\<lparr>Value = CalcBlockSubsidy env (best_Height (BestSnapshot env) + 1), PkScript = pk\<rparr>]"
    "addr = None \<longrightarrow> pk = [OP_TRUE]"
    "blockInv policy cb (blockHeaderOverhead env + word_of_int (SerializeSize env cb))
       (length (filter (\<lambda>d. \<not> IsCoinBase env (desc_Tx d)) (MiningDescs env))) st"
proof -
  from assms obtain st where sel: "selectTransactions env policy addr = Some (Inr st)"
    and fin: "finishTemplate env addr key st = Inr tmpl"
    by (rule NewBlockTemplate_Inr)
  from sel obtain script cb where
    cb: "createCoinbaseTx env script (best_Height (BestSnapshot env) + 1) addr = Inr cb"
    and inv: "blockInv policy cb (blockHeaderOverhead env + word_of_int (SerializeSize env cb))
       (length (filter (\<lambda>d. \<not> IsCoinBase env (desc_Tx d)) (MiningDescs env))) st"
    by (rule selectTransactions_Inr)
  from createCoinbaseTx_Inr[OF cb] obtain pk where
    pk: "tx_TxOut cb = [\<lparr>Value = CalcBlockSubsidy env (best_Height (BestSnapshot env) + 1), PkScript = pk\<rparr>]"
      "addr = None \<longrightarrow> pk = [OP_TRUE]"
    by blast
  from inv obtain rest where "blockTxns st = cb # rest"
    by (cases "blockTxns st") (auto simp: blockInv_def)
  with sel fin pk inv show thesis by (intro that) 
qed

text \<open>
  C1. In every template that \<open>NewBlockTemplate\<close> returns there is one fee per
  transaction, the first fee is the negative of the sum of the others, all the fees sum
  to zero, and the value of the one coinbase output is the subsidy at the height of the
  template plus the sum of the other fees; sums, negation and equality are those of
  Go's \<open>int64\<close>.
\<close>

theorem NewBlockTemplate_fee_settlement:
  assumes "NewBlockTemplate env policy payToAddress validateKey = Some (Inr tmpl)"
  shows "Fees tmpl \<noteq> [] \<and>
         length (Fees tmpl) = length (Transactions (Block tmpl)) \<and>
         hd (Fees tmpl) = - sum_list (tl (Fees tmpl)) \<and>
         sum_list (Fees tmpl) = 0 \<and>
         (\<exists>out. tx_TxOut (hd (Transactions (Block tmpl))) = [out] \<and>
           Value out = CalcBlockSubsidy env (Height tmpl) + sum_list (tl (Fees tmpl)))"
proof -
  from assms obtain st cb pk rest where
    fin: "finishTemplate env payToAddress validateKey st = Inr tmpl"
    and txs: "blockTxns st = cb # rest"
    and out: "tx_TxOut cb = [\<lparr>Value = CalcBlockSubsidy env (best_Height (BestSnapshot env) + 1), PkScript = pk\<rparr>]"
    and inv: "blockInv policy cb (blockHeaderOverhead env + word_of_int (SerializeSize env cb))
       (length (filter (\<lambda>d. \<not> IsCoinBase env (desc_Tx d)) (MiningDescs env))) st"
    by (rule NewBlockTemplate_success)
  from inv txs obtain f fs where fees: "txFees st = f # fs" and len: "length fs = length rest"
    and tot: "sum_list fs = totalFees st"
    by (cases "txFees st") (auto simp: blockInv_def)
  note F = finishTemplate_Inr[OF fin]
  have 1: "Fees tmpl = (- totalFees st) # fs" using F(1) fees by simp
  have 2: "length (Transactions (Block tmpl)) = Suc (length rest)" using F(5) txs by simp
  have 3: "\<exists>out. tx_TxOut (hd (Transactions (Block tmpl))) = [out] \<and>
           Value out = CalcBlockSubsidy env (Height tmpl) + totalFees st"
    using F(5) F(3) txs out by simp
  from 1 2 3 len tot show ?thesis by simp
qed

theorem NewBlockTemplate_fee_settlement_witness:
  "Fees exTemplate = [- 140, 100, 40] \<and>
   hd (Fees exTemplate) = - sum_list (tl (Fees exTemplate)) \<and>
   sum_list (Fees exTemplate) = 0 \<and>
   tx_TxOut (hd (Transactions (Block exTemplate))) = [\<lparr>Value = 5140, PkScript = [0x51]\<rparr>] \<and>
   CalcBlockSubsidy exEnv (Height exTemplate) + sum_list (tl (Fees exTemplate)) = 5140"
  using NewBlockTemplate_fee_settlement [OF exRun]
  by (simp add: exTemplate_def exEnv_def exCoinbase_def)

text \<open>
  The header timestamp of a returned template is the larger of the adjusted time as the
  time source returns it to \<open>medianAdjustedTime\<close> (the call after those of the first
  loop) and the median time of the snapshot plus one second; so it is at least one
  second after the median time, and it is the larger of the truncated adjusted time and
  the median time plus one second when the time source returns a whole number of
  seconds.
\<close>

lemma NewBlockTemplate_timestamp:
  assumes "NewBlockTemplate env policy payToAddress validateKey = Some (Inr tmpl)"
  shows "hdr_Timestamp (Header (Block tmpl)) =
           max (AdjustedTime env
                  (length (filter (\<lambda>d. \<not> IsCoinBase env (desc_Tx d)) (MiningDescs env))))
               (best_MedianTime (BestSnapshot env) + Second) \<and>
         best_MedianTime (BestSnapshot env) + Second \<le> hdr_Timestamp (Header (Block tmpl)) \<and>
         (AdjustedTime env
            (length (filter (\<lambda>d. \<not> IsCoinBase env (desc_Tx d)) (MiningDescs env))) mod Second = 0
          \<longrightarrow>
          hdr_Timestamp (Header (Block tmpl)) =
           max (truncateToSeconds (AdjustedTime env
                  (length (filter (\<lambda>d. \<not> IsCoinBase env (desc_Tx d)) (MiningDescs env)))))
               (best_MedianTime (BestSnapshot env) + Second))"
proof -
  from assms obtain st cb where
    fin: "finishTemplate env payToAddress validateKey st = Inr tmpl"
    and inv: "blockInv policy cb (blockHeaderOverhead env + word_of_int (SerializeSize env cb))
       (length (filter (\<lambda>d. \<not> IsCoinBase env (desc_Tx d)) (MiningDescs env))) st"
    by (rule NewBlockTemplate_success)
  from inv have "timeCalls st =
      length (filter (\<lambda>d. \<not> IsCoinBase env (desc_Tx d)) (MiningDescs env))"
    by (simp add: blockInv_def)
  with finishTemplate_Inr(6)[OF fin] show ?thesis
    by (auto simp: medianAdjustedTime_def minimumMedianTime_def Let_def truncateToSeconds_def)
qed

lemma NewBlockTemplate_timestamp_example:
  "AdjustedTime exEnv 2 mod Second = 0 \<and>
   hdr_Timestamp (Header (Block exTemplate)) =
     max (truncateToSeconds (AdjustedTime exEnv 2)) (best_MedianTime (BestSnapshot exEnv) + Second) \<and>
   best_MedianTime (BestSnapshot exEnv) + Second \<le> hdr_Timestamp (Header (Block exTemplate))"
  using NewBlockTemplate_timestamp [OF exRun]
  by (simp add: exTemplate_def exEnv_def exTx_def Second_def truncateToSeconds_def)


text \<open>The coinbase output and the recorded size of a returned template.\<close>

lemma NewBlockTemplate_coinbase_output:
  assumes "NewBlockTemplate env policy payToAddress validateKey = Some (Inr tmpl)"
  shows "\<exists>st pk out.
           selectTransactions env policy payToAddress = Some (Inr st) \<and>
           tx_TxOut (hd (blockTxns st)) =
             [\<lparr>Value = CalcBlockSubsidy env (Height tmpl), PkScript = pk\<rparr>] \<and>
           (payToAddress = None \<longrightarrow> pk = [OP_TRUE]) \<and>
           tx_TxOut (hd (Transactions (Block tmpl))) = [out] \<and>
           Value out = CalcBlockSubsidy env (Height tmpl) + sum_list (tl (Fees tmpl)) \<and>
           PkScript out = (if Value out = 0 then [OP_RETURN] else pk) \<and>
           hdr_Size (Header (Block tmpl)) =
             blockSize st -
             (MaxVarIntPayload -
              word_of_int (VarIntSerializeSize
                (word_of_int (int (length (Transactions (Block tmpl))))))) -
             (if Value out = 0
              then word_of_int (int (length pk) - int (length [OP_RETURN]))
              else 0)"
proof -
  from assms obtain st cb pk rest where
    sel: "selectTransactions env policy payToAddress = Some (Inr st)"
    and fin: "finishTemplate env payToAddress validateKey st = Inr tmpl"
    and txs: "blockTxns st = cb # rest"
    and out: "tx_TxOut cb = [\<lparr>Value = CalcBlockSubsidy env (best_Height (BestSnapshot env) + 1), PkScript = pk\<rparr>]"
    and pk: "payToAddress = None \<longrightarrow> pk = [OP_TRUE]"
    and inv: "blockInv policy cb (blockHeaderOverhead env + word_of_int (SerializeSize env cb))
       (length (filter (\<lambda>d. \<not> IsCoinBase env (desc_Tx d)) (MiningDescs env))) st"
    by (rule NewBlockTemplate_success)
  from inv txs obtain f fs where fees: "txFees st = f # fs"
    and tot: "sum_list fs = totalFees st"
    by (cases "txFees st") (auto simp: blockInv_def)
  note F = finishTemplate_Inr[OF fin]
  let ?v = "CalcBlockSubsidy env (Height tmpl) + totalFees st"
  let ?out = "\<lparr>Value = ?v, PkScript = (if ?v = 0 then [OP_RETURN] else pk)\<rparr>"
  have h: "Height tmpl = best_Height (BestSnapshot env) + 1" by (rule F(3))
  have 1: "tx_TxOut (hd (Transactions (Block tmpl))) = [?out]"
    using F(5) txs out h by simp
  have 2: "sum_list (tl (Fees tmpl)) = totalFees st" using F(1) fees tot by simp
  have 3: "length (Transactions (Block tmpl)) = length (blockTxns st)" using F(5) by simp
  have 4: "hdr_Size (Header (Block tmpl)) =
             blockSize st -
             (MaxVarIntPayload -
              word_of_int (VarIntSerializeSize
                (word_of_int (int (length (Transactions (Block tmpl))))))) -
             (if ?v = 0 then word_of_int (int (length pk) - int (length [OP_RETURN])) else 0)"
    using F(7) txs out h 3 by simp
  show ?thesis
    apply (rule exI[of _ st], rule exI[of _ pk], rule exI[of _ ?out])
    using sel txs out pk h 1 2 4 by simp
qed

text \<open>
  C6 (as amended). The coinbase output of a returned template carries the subsidy plus
  the total fees. Its script is the script the coinbase was created with (the single
  opcode \<open>OP_TRUE\<close> when \<open>payToAddress\<close> is nil), unless that value is zero: then it
  is the single opcode \<open>OP_RETURN\<close>, and the recorded size is smaller by the length of
  the replaced script minus the length of the new one (in \<open>uint32\<close> arithmetic). The
  recorded size is the running size of the loop less the varint correction and less
  that difference.
\<close>

theorem NewBlockTemplate_coinbase_script:
  assumes "NewBlockTemplate env policy payToAddress validateKey = Some (Inr tmpl)"
  shows "\<exists>st pk out.
           selectTransactions env policy payToAddress = Some (Inr st) \<and>
           tx_TxOut (hd (blockTxns st)) =
             [\<lparr>Value = CalcBlockSubsidy env (Height tmpl), PkScript = pk\<rparr>] \<and>
           (payToAddress = None \<longrightarrow> pk = [OP_TRUE]) \<and>
           tx_TxOut (hd (Transactions (Block tmpl))) = [out] \<and>
           Value out = CalcBlockSubsidy env (Height tmpl) + sum_list (tl (Fees tmpl)) \<and>
           PkScript out = (if Value out = 0 then [OP_RETURN] else pk) \<and>
           hdr_Size (Header (Block tmpl)) =
             blockSize st -
             (MaxVarIntPayload -
              word_of_int (VarIntSerializeSize
                (word_of_int (int (length (Transactions (Block tmpl))))))) -
             (if Value out = 0
              then word_of_int (int (length pk) - int (length [OP_RETURN]))
              else 0)"
  using assms by (rule NewBlockTemplate_coinbase_output)

theorem NewBlockTemplate_coinbase_script_witness:
  "tx_TxOut (hd (Transactions (Block exTemplate))) = [\<lparr>Value = 5140, PkScript = [OP_TRUE]\<rparr>] \<and>
   CalcBlockSubsidy exEnv (Height exTemplate) + sum_list (tl (Fees exTemplate)) = 5140"
  using NewBlockTemplate_coinbase_script [OF exRun]
  by (simp add: exTemplate_def exEnv_def exCoinbase_def OP_TRUE_def)

text \<open>
  C6 as stated fails: with an empty pool and a nil address the fees sum to zero, the
  subsidy is 5000, and the output script is \<open>OP_TRUE\<close>, not \<open>OP_RETURN\<close>.
\<close>

theorem zero_fees_keep_anyone_can_spend:
  "NewBlockTemplate exEnvEmpty exPolicy None () = Some (Inr exTemplateEmpty) \<and>
   sum_list (tl (Fees exTemplateEmpty)) = 0 \<and>
   PkScript (hd (tx_TxOut (hd (Transactions (Block exTemplateEmpty))))) = [OP_TRUE] \<and>
   PkScript (hd (tx_TxOut (hd (Transactions (Block exTemplateEmpty))))) \<noteq> [OP_RETURN]"
  using exRunEmpty
  by (simp add: exTemplateEmpty_def exCoinbase_def OP_TRUE_def OP_RETURN_def)

text \<open>
  C4 (as amended). A transaction is added only when \<open>blockSize + txSize\<close> is below
  \<open>policy.BlockMaxSize\<close>; one that makes it equal is skipped. So for a returned
  template with a transaction besides the coinbase the running size after the loop is
  below \<open>BlockMaxSize\<close>. The recorded size is that running size less the varint
  correction and less the shrink of the coinbase script, and it is below
  \<open>BlockMaxSize\<close> when these two subtractions do not wrap around.
\<close>

theorem NewBlockTemplate_size_bound:
  assumes "NewBlockTemplate env policy payToAddress validateKey = Some (Inr tmpl)"
    and "1 < length (Transactions (Block tmpl))"
  shows "\<exists>st.
           selectTransactions env policy payToAddress = Some (Inr st) \<and>
           blockSize st < BlockMaxSize policy \<and>
           hdr_Size (Header (Block tmpl)) =
             blockSize st -
             (MaxVarIntPayload -
              word_of_int (VarIntSerializeSize
                (word_of_int (int (length (Transactions (Block tmpl))))))) -
             (if Value (hd (tx_TxOut (hd (Transactions (Block tmpl))))) = 0
              then word_of_int
                     (int (length (PkScript (hd (tx_TxOut (hd (blockTxns st)))))) -
                      int (length [OP_RETURN]))
              else 0) \<and>
           (unat (MaxVarIntPayload -
              word_of_int (VarIntSerializeSize
                (word_of_int (int (length (Transactions (Block tmpl))))))) +
            unat (if Value (hd (tx_TxOut (hd (Transactions (Block tmpl))))) = 0
              then word_of_int
                     (int (length (PkScript (hd (tx_TxOut (hd (blockTxns st)))))) -
                      int (length [OP_RETURN]))
              else (0 :: uint32))
              \<le> unat (blockSize st) \<longrightarrow>
            hdr_Size (Header (Block tmpl)) < BlockMaxSize policy)"
proof -
  from NewBlockTemplate_coinbase_output[OF assms(1)] obtain st pk out where
    sel: "selectTransactions env policy payToAddress = Some (Inr st)"
    and o0: "tx_TxOut (hd (blockTxns st)) =
             [\<lparr>Value = CalcBlockSubsidy env (Height tmpl), PkScript = pk\<rparr>]"
    and o1: "tx_TxOut (hd (Transactions (Block tmpl))) = [out]"
    and sz: "hdr_Size (Header (Block tmpl)) =
             blockSize st -
             (MaxVarIntPayload -
              word_of_int (VarIntSerializeSize
                (word_of_int (int (length (Transactions (Block tmpl))))))) -
             (if Value out = 0
              then word_of_int (int (length pk) - int (length [OP_RETURN]))
              else 0)"
    by (elim exE conjE)
  from assms(1) obtain st' cb where
    sel': "selectTransactions env policy payToAddress = Some (Inr st')"
    and fin: "finishTemplate env payToAddress validateKey st' = Inr tmpl"
    and inv: "blockInv policy cb (blockHeaderOverhead env + word_of_int (SerializeSize env cb))
       (length (filter (\<lambda>d. \<not> IsCoinBase env (desc_Tx d)) (MiningDescs env))) st'"
    by (rule NewBlockTemplate_success)
  from sel sel' have st': "st' = st" by simp
  have "length (Transactions (Block tmpl)) = length (blockTxns st)"
    using finishTemplate_Inr(5)[OF fin] st' by simp
  with assms(2) inv st' have lt: "blockSize st < BlockMaxSize policy"
    by (simp add: blockInv_def)
  define corr where "corr = MaxVarIntPayload -
                  word_of_int (VarIntSerializeSize
                    (word_of_int (int (length (Transactions (Block tmpl))))))"
  define shrink where "shrink = (if Value (hd (tx_TxOut (hd (Transactions (Block tmpl))))) = 0
              then word_of_int
                     (int (length (PkScript (hd (tx_TxOut (hd (blockTxns st)))))) -
                      int (length [OP_RETURN]))
              else (0 :: uint32))"
  have sz': "hdr_Size (Header (Block tmpl)) = blockSize st - corr - shrink"
    unfolding corr_def shrink_def using sz o0 o1 by simp
  have bound: "hdr_Size (Header (Block tmpl)) < BlockMaxSize policy"
    if "unat corr + unat shrink \<le> unat (blockSize st)"
  proof -
    have c: "corr \<le> blockSize st" using that by (simp add: word_le_nat_alt)
    then have u1: "unat (blockSize st - corr) = unat (blockSize st) - unat corr"
      by (rule unat_sub)
    with that have "shrink \<le> blockSize st - corr" by (simp add: word_le_nat_alt)
    then have "unat (blockSize st - corr - shrink) = unat (blockSize st - corr) - unat shrink"
      by (rule unat_sub)
    with u1 have "unat (blockSize st - corr - shrink) \<le> unat (blockSize st)" by simp
    with lt show ?thesis by (simp add: word_less_nat_alt sz')
  qed
  have "selectTransactions env policy payToAddress = Some (Inr st) \<and>
        blockSize st < BlockMaxSize policy \<and>
        hdr_Size (Header (Block tmpl)) = blockSize st - corr - shrink \<and>
        (unat corr + unat shrink \<le> unat (blockSize st) \<longrightarrow>
         hdr_Size (Header (Block tmpl)) < BlockMaxSize policy)"
    using sel lt sz' bound by (intro conjI impI)
  then show ?thesis
    unfolding corr_def shrink_def by (rule exI)
qed

theorem NewBlockTemplate_size_bound_witness:
  "1 < length (Transactions (Block exTemplate)) \<and>
   hdr_Size (Header (Block exTemplate)) = 778 - 8 - 0 \<and>
   unat (8 :: uint32) + unat (0 :: uint32) \<le> unat (778 :: uint32) \<and>
   hdr_Size (Header (Block exTemplate)) < BlockMaxSize exPolicy"
proof -
  have len: "1 < length (Transactions (Block exTemplate))"
    by (simp add: exTemplate_def)
  have c: "MaxVarIntPayload -
      word_of_int (VarIntSerializeSize
        (word_of_int (int (length (Transactions (Block exTemplate)))))) = 8"
    by (simp add: exTemplate_def MaxVarIntPayload_def VarIntSerializeSize_def)
  have v: "Value (hd (tx_TxOut (hd (Transactions (Block exTemplate))))) \<noteq> 0"
    by (simp add: exTemplate_def exCoinbase_def)
  have hs: "hdr_Size (Header (Block exTemplate)) = 770"
    by (simp add: exTemplate_def)
  from NewBlockTemplate_size_bound [OF exRun len]
  obtain st :: "unit Locals" where
    sz: "hdr_Size (Header (Block exTemplate)) = blockSize st - 8 - 0"
    and imp: "unat (8 :: uint32) + unat (0 :: uint32) \<le> unat (blockSize st) \<longrightarrow>
            hdr_Size (Header (Block exTemplate)) < BlockMaxSize exPolicy"
    unfolding c using v by (elim exE conjE) simp
  from sz have "blockSize st = hdr_Size (Header (Block exTemplate)) + 8"
    by simp
  then have bs: "blockSize st = 778" by (simp add: hs)
  with imp have "hdr_Size (Header (Block exTemplate)) < BlockMaxSize exPolicy"
    by simp
  with len hs show ?thesis by simp
qed

text \<open>
  C4 as stated fails: the running size is 378, the first transaction of the pool has
  200 bytes and one signature operation, \<open>BlockMaxSize\<close> is 578, and the returned
  block holds the coinbase only.
\<close>

theorem exact_fit_is_skipped:
  "NewBlockTemplate exEnv exPolicyTight None () = Some (Inr exTemplateEmpty) \<and>
   desc_Tx (hd (MiningDescs exEnv)) = exTx 1 [(50, 0)] [[0x51]] \<and>
   blockHeaderOverhead exEnv + word_of_int (SerializeSize exEnv (exCoinbase 5000)) +
     word_of_int (SerializeSize exEnv (exTx 1 [(50, 0)] [[0x51]])) = BlockMaxSize exPolicyTight \<and>
   sint (word_of_int (CountSigOps exEnv (exCoinbase 5000)) +
         word_of_int (CountSigOps exEnv (exTx 1 [(50, 0)] [[0x51]])) :: int64)
     \<le> sint (MaxSigOpsPerBlock exEnv) \<and>
   Transactions (Block exTemplateEmpty) = [exCoinbase 5000] \<and>
   exTx 1 [(50, 0)] [[0x51]] \<notin> set (Transactions (Block exTemplateEmpty))"
  using exRunTight
  by (simp add: exTemplateEmpty_def exEnv_def exPolicyTight_def exPolicy_def
      blockHeaderOverhead_def MaxVarIntPayload_def exCoinbase_def exTx_def)

section \<open>Dependencies between the transactions of the pool\<close>

subsection \<open>The first loop\<close>

lemma set_items_pq_heapPush:
  "set (items (pq_heapPush store pq a)) = insert a (set (items pq))"
proof -
  have "set_mset (mset (items (pq_heapPush store pq a))) = set_mset (add_mset a (mset (items pq)))"
    by (simp only: mset_items_pq_heapPush)
  then show ?thesis by simp
qed

lemma set_AList_update: "set (AList.update k v al) \<subseteq> insert (k, v) (set al)"
  by (induction al) auto

lemma setupDependencies_Cons:
  "setupDependencies env utxos a (txIn # ins) st =
     (if inputMissing env utxos txIn
      then if HaveTransaction env (op_Hash (PreviousOutPoint txIn))
           then setupDependencies env utxos a ins
                  (registerDep env a (op_Hash (PreviousOutPoint txIn)) st)
           else (False, st)
      else setupDependencies env utxos a ins st)"
  by (simp add: inputMissing_def Let_def registerDep_def dependersOf_def)

declare setupDependencies.simps(2) [simp del]

lemma registerDep_fields:
  "length (prioItems (registerDep env a h st)) = length (prioItems st)"
  "b \<noteq> a \<Longrightarrow> prioItems (registerDep env a h st) ! b = prioItems st ! b"
  "a < length (prioItems st) \<Longrightarrow>
     item_tx (prioItems (registerDep env a h st) ! a) = item_tx (prioItems st ! a)"
  "a < length (prioItems st) \<Longrightarrow>
     pendingDeps (prioItems (registerDep env a h st) ! a) = insert h (pendingDeps (prioItems st ! a))"
  "a < length (prioItems st) \<Longrightarrow>
     item_dependsOn (prioItems (registerDep env a h st) ! a) \<noteq> None"
  "priorityQueue (registerDep env a h st) = priorityQueue st"
  "blockTxns (registerDep env a h st) = blockTxns st"
  by (auto simp: registerDep_def pendingDeps_def split: option.splits)

lemma dependersOf_registerDep:
  "set (dependersOf (registerDep env a h st) h') \<subseteq>
     (if h' = h then insert (TxHash env (item_tx (prioItems st ! a)), a) (set (dependersOf st h))
      else set (dependersOf st h'))"
  using set_AList_update[of "TxHash env (item_tx (prioItems st ! a))" a "dependersOf st h"]
  by (simp add: registerDep_def dependersOf_def)

lemma setupDependencies_other:
  "b \<noteq> a \<Longrightarrow> prioItems (snd (setupDependencies env utxos a ins st)) ! b = prioItems st ! b"
  by (induction ins arbitrary: st) (simp_all add: setupDependencies_Cons registerDep_fields)

lemma setupDependencies_tx:
  "a < length (prioItems st) \<Longrightarrow>
   item_tx (prioItems (snd (setupDependencies env utxos a ins st)) ! a) = item_tx (prioItems st ! a)"
  by (induction ins arbitrary: st) (simp_all add: setupDependencies_Cons registerDep_fields)

lemma setupDependencies_pending:
  "a < length (prioItems st) \<Longrightarrow>
   pendingDeps (prioItems (snd (setupDependencies env utxos a ins st)) ! a) =
     pendingDeps (prioItems st ! a) \<union> set (recordedDeps env utxos ins)"
  by (induction ins arbitrary: st) (auto simp: setupDependencies_Cons registerDep_fields)

lemma setupDependencies_complete:
  "fst (setupDependencies env utxos a ins st) \<longleftrightarrow>
     (\<forall>txIn \<in> set ins. inputMissing env utxos txIn \<longrightarrow>
        HaveTransaction env (op_Hash (PreviousOutPoint txIn)))"
  by (induction ins arbitrary: st) (simp_all add: setupDependencies_Cons)

lemma setupDependencies_dependers:
  "a < length (prioItems st) \<Longrightarrow>
   d \<in> set (dependersOf (snd (setupDependencies env utxos a ins st)) h) \<Longrightarrow>
   d \<in> set (dependersOf st h) \<or>
   (d = (TxHash env (item_tx (prioItems st ! a)), a) \<and> h \<in> set (recordedDeps env utxos ins))"
proof (induction ins arbitrary: st)
  case Nil
  then show ?case by simp
next
  case (Cons txIn ins)
  let ?h = "op_Hash (PreviousOutPoint txIn)"
  show ?case
  proof (cases "inputMissing env utxos txIn \<and> HaveTransaction env ?h")
    case True
    let ?st' = "registerDep env a ?h st"
    from Cons.prems(2) True
    have d: "d \<in> set (dependersOf (snd (setupDependencies env utxos a ins ?st')) h)"
      by (simp add: setupDependencies_Cons)
    have a': "a < length (prioItems ?st')"
      using Cons.prems(1) by (simp add: registerDep_fields)
    from Cons.IH[OF a' d]
    have "d \<in> set (dependersOf ?st' h) \<or>
        (d = (TxHash env (item_tx (prioItems st ! a)), a) \<and> h \<in> set (recordedDeps env utxos ins))"
      using Cons.prems(1) by (simp add: registerDep_fields)
    moreover have "d \<in> set (dependersOf ?st' h) \<Longrightarrow>
        d \<in> set (dependersOf st h) \<or> (d = (TxHash env (item_tx (prioItems st ! a)), a) \<and> h = ?h)"
      using dependersOf_registerDep[of env a ?h st h] by (auto split: if_splits)
    ultimately show ?thesis using True by auto
  next
    case False
    with Cons show ?thesis
      by (auto simp: setupDependencies_Cons split: if_splits)
  qed
qed


lemma completePrioItem_effect:
  assumes "completePrioItem env h txDesc utxos a st = Inr st'" and "a < length (prioItems st)"
  shows "length (prioItems st') = length (prioItems st)"
    and "b \<noteq> a \<Longrightarrow> prioItems st' ! b = prioItems st ! b"
    and "item_tx (prioItems st' ! a) = item_tx (prioItems st ! a)"
    and "item_dependsOn (prioItems st' ! a) = item_dependsOn (prioItems st ! a)"
    and "mset (items (priorityQueue st')) =
           (if item_dependsOn (prioItems st ! a) = None
            then add_mset a (mset (items (priorityQueue st)))
            else mset (items (priorityQueue st)))"
    and "dependers st' = dependers st"
  using assms
  by (auto simp: completePrioItem_def Let_def mset_items_pq_heapPush split: if_splits)

lemma pendingDeps_cong:
  "item_dependsOn x = item_dependsOn y \<Longrightarrow> pendingDeps x = pendingDeps y"
  by (simp add: pendingDeps_def)

lemma dependersOf_cong: "dependers st' = dependers st \<Longrightarrow> dependersOf st' = dependersOf st"
  by (auto simp: dependersOf_def)

lemma recordedParents_Inr:
  "FetchUtxoView env tx = Inr utxos \<Longrightarrow> recordedParents env tx = recordedDeps env utxos (tx_TxIn tx)"
  by (simp add: recordedParents_def)

text \<open>The state after the item for \<open>tx\<close> is allocated and its inputs are scanned.\<close>

lemma scan_inv:
  fixes c :: nat
  assumes q: "queueInv st" and d: "depsInv env st"
    and f: "FetchUtxoView env tx = Inr utxos"
  defines "a \<equiv> length (prioItems st)"
  defines "s \<equiv> snd (setupDependencies env utxos a (tx_TxIn tx)
      (st\<lparr>timeCalls := c, prioItems := prioItems st @ [newPrioItem tx]\<rparr>))"
  shows "queueInv s" and "depsInv env s" and "length (prioItems s) = Suc a"
    and "item_dependsOn (prioItems s ! a) = None \<longrightarrow> pendingDeps (prioItems s ! a) = {}"
    and "a \<notin> set (items (priorityQueue s))"
proof -
  let ?st2 = "st\<lparr>timeCalls := c, prioItems := prioItems st @ [newPrioItem tx]\<rparr>"
  have a2: "a < length (prioItems ?st2)" by (simp add: a_def)
  have len: "length (prioItems s) = Suc a"
    using setupDependencies_frame[of env utxos a "tx_TxIn tx" ?st2] by (simp add: s_def a_def)
  have fr: "priorityQueue s = priorityQueue st" "blockTxns s = blockTxns st"
    using setupDependencies_frame[of env utxos a "tx_TxIn tx" ?st2] by (simp_all add: s_def)
  have old: "prioItems s ! b = prioItems st ! b" if "b < a" for b
    using setupDependencies_other[of b a env utxos "tx_TxIn tx" ?st2] that
    by (simp add: s_def a_def nth_append)
  have tx: "item_tx (prioItems s ! a) = tx"
    using setupDependencies_tx[OF a2, of env utxos "tx_TxIn tx"]
    by (simp add: s_def a_def newPrioItem_def)
  have pend: "pendingDeps (prioItems s ! a) = set (recordedDeps env utxos (tx_TxIn tx))"
    using setupDependencies_pending[OF a2, of env utxos "tx_TxIn tx"]
    by (simp add: s_def a_def newPrioItem_def pendingDeps_def)
  have deps: "snd dd < Suc a" if "dd \<in> set (dependersOf s h)" for dd h
  proof -
    from setupDependencies_dependers[OF a2 that[unfolded s_def]]
    have "dd \<in> set (dependersOf ?st2 h) \<or> snd dd = a" by auto
    moreover have "dependersOf ?st2 h = dependersOf st h" by (simp add: dependersOf_def)
    moreover have "snd dd < a" if "dd \<in> set (dependersOf st h)"
      using q that unfolding queueInv_def a_def by blast
    ultimately show ?thesis by auto
  qed
  show "length (prioItems s) = Suc a" by (rule len)
  have "x < length (prioItems s) \<and> pendingDeps (prioItems s ! x) = {}"
    if "x \<in> set (items (priorityQueue s))" for x
  proof -
    from that have x: "x \<in> set (items (priorityQueue st))" by (simp add: fr)
    with q have "x < a" "pendingDeps (prioItems st ! x) = {}"
      by (auto simp: queueInv_def a_def)
    then show ?thesis using old len by simp
  qed
  moreover have "snd dd < length (prioItems s)" if "dd \<in> set (dependersOf s h)" for dd h
    using deps[OF that] len by simp
  ultimately show "queueInv s"
    unfolding queueInv_def by blast
  show "a \<notin> set (items (priorityQueue s))"
    using q by (auto simp: queueInv_def fr a_def)
  show "item_dependsOn (prioItems s ! a) = None \<longrightarrow> pendingDeps (prioItems s ! a) = {}"
    by (simp add: pendingDeps_def)
  have 1: "blockTxns s \<noteq> []" using d by (simp add: depsInv_def fr)
  have 2: "(\<exists>utxos. FetchUtxoView env (item_tx (prioItems s ! b)) = Inr utxos) \<and>
          set (recordedParents env (item_tx (prioItems s ! b)))
            \<subseteq> pendingDeps (prioItems s ! b) \<union> TxHash env ` set (tl (blockTxns s))"
    if b: "b < length (prioItems s)" for b
  proof (cases "b = a")
    case True
    then show ?thesis using tx pend f by (simp add: recordedParents_Inr)
  next
    case False
    with b len have "b < a" by simp
    then show ?thesis using old[of b] d by (simp add: depsInv_def fr a_def)
  qed
  have 3: "afterParents env (blockTxns s) i" if "0 < i \<and> i < length (blockTxns s)" for i
    using that d by (simp add: depsInv_def fr)
  show "depsInv env s"
    unfolding depsInv_def using 1 2 3 by blast
qed


lemma queueInv_timeCalls [simp]: "queueInv (st\<lparr>timeCalls := c\<rparr>) = queueInv st"
  by (simp add: queueInv_def dependersOf_def)

lemma depsInv_timeCalls [simp]: "depsInv env (st\<lparr>timeCalls := c\<rparr>) = depsInv env st"
  by (simp add: depsInv_def)

lemma completePrioItem_inv:
  assumes q: "queueInv s" and d: "depsInv env s" and a: "a < length (prioItems s)"
    and c: "completePrioItem env h txDesc utxos a s = Inr st'"
  shows "queueInv st'" and "depsInv env st'"
proof -
  note e = completePrioItem_effect[OF c a]
  have bt: "blockTxns st' = blockTxns s" using completePrioItem_frame[OF c] by simp
  have tx: "item_tx (prioItems st' ! b) = item_tx (prioItems s ! b)" for b
    using e(2)[of b] e(3) by (cases "b = a") simp_all
  have pd: "pendingDeps (prioItems st' ! b) = pendingDeps (prioItems s ! b)" for b
    using e(2)[of b] e(4) by (cases "b = a") (simp_all add: pendingDeps_def)
  have "set (items (priorityQueue st')) =
      (if item_dependsOn (prioItems s ! a) = None
       then insert a (set (items (priorityQueue s))) else set (items (priorityQueue s)))"
    using arg_cong[where f = set_mset, OF e(5)] by (simp split: if_splits)
  then have qs: "x \<in> set (items (priorityQueue s)) \<or> (x = a \<and> item_dependsOn (prioItems s ! a) = None)"
    if "x \<in> set (items (priorityQueue st'))" for x
    using that by (auto split: if_splits)
  have "x < length (prioItems st') \<and> pendingDeps (prioItems st' ! x) = {}"
    if "x \<in> set (items (priorityQueue st'))" for x
    using qs[OF that] q a unfolding queueInv_def e(1) pd
    by (auto simp: pendingDeps_def)
  moreover have "snd dd < length (prioItems st')" if "dd \<in> set (dependersOf st' hh)" for dd hh
    using that q unfolding queueInv_def e(1) dependersOf_cong[OF e(6)] by blast
  ultimately show "queueInv st'" unfolding queueInv_def by blast
  show "depsInv env st'"
    using d unfolding depsInv_def e(1) tx pd bt by simp
qed

lemma mempoolStep_inv:
  assumes q: "queueInv st" and d: "depsInv env st"
    and m: "mempoolStep env h txDesc st = Inr st'"
  shows "queueInv st' \<and> depsInv env st'"
proof (cases "IsCoinBase env (desc_Tx txDesc)")
  case True
  with m q d show ?thesis by (simp add: mempoolStep_def)
next
  case False
  let ?tx = "desc_Tx txDesc"
  let ?c = "Suc (timeCalls st)"
  show ?thesis
  proof (cases "IsFinalizedTransaction env ?tx h (AdjustedTime env (timeCalls st))")
    case nf: False
    with False m have "st' = st\<lparr>timeCalls := ?c\<rparr>"
      by (auto simp: mempoolStep_def Let_def)
    with q d show ?thesis by simp
  next
    case fin: True
    show ?thesis
    proof (cases "FetchUtxoView env ?tx")
      case (Inl err)
      with False fin m have "st' = st\<lparr>timeCalls := ?c\<rparr>"
        by (auto simp: mempoolStep_def Let_def)
      with q d show ?thesis by simp
    next
      case (Inr utxos)
      let ?a = "length (prioItems st)"
      let ?sc = "setupDependencies env utxos ?a (tx_TxIn ?tx)
          (st\<lparr>timeCalls := ?c, prioItems := prioItems st @ [newPrioItem ?tx]\<rparr>)"
      note sc = scan_inv[OF q d Inr, of ?c]
      show ?thesis
      proof (cases "fst ?sc")
        case False
        with \<open>\<not> IsCoinBase env ?tx\<close> fin Inr m have "st' = snd ?sc"
          by (simp add: mempoolStep_def Let_def)
        with sc(1,2) show ?thesis by simp
      next
        case True
        with \<open>\<not> IsCoinBase env ?tx\<close> fin Inr m
        have c: "completePrioItem env h txDesc utxos ?a (snd ?sc) = Inr st'"
          by (simp add: mempoolStep_def Let_def)
        have "?a < length (prioItems (snd ?sc))" using sc(3) by simp
        from completePrioItem_inv[OF sc(1,2) this c] show ?thesis by simp
      qed
    qed
  qed
qed

lemma mempoolLoop_inv:
  assumes "queueInv st" and "depsInv env st"
    and "mempoolLoop env h descs st = Inr st'"
  shows "queueInv st' \<and> depsInv env st'"
  using assms
proof (induction descs arbitrary: st)
  case Nil
  then show ?case by simp
next
  case (Cons d descs)
  from Cons.prems(3) obtain st1 where s1: "mempoolStep env h d st = Inr st1"
    and l: "mempoolLoop env h descs st1 = Inr st'"
    by (auto split: sum.splits)
  from mempoolStep_inv[OF Cons.prems(1,2) s1] Cons.IH[OF _ _ l] show ?case by simp
qed


subsection \<open>The choosing loop\<close>

lemma promoteDeps_Cons:
  "promoteDeps h (d # ds) st = promoteDeps h ds (releaseDep h (snd d) st)"
  by (simp add: releaseDep_def Let_def)

declare promoteDeps.simps(2) [simp del]

lemma releaseDep_fields:
  "length (prioItems (releaseDep h a st)) = length (prioItems st)"
  "b \<noteq> a \<Longrightarrow> prioItems (releaseDep h a st) ! b = prioItems st ! b"
  "a < length (prioItems st) \<Longrightarrow>
     item_tx (prioItems (releaseDep h a st) ! a) = item_tx (prioItems st ! a)"
  "a < length (prioItems st) \<Longrightarrow>
     pendingDeps (prioItems (releaseDep h a st) ! a) = pendingDeps (prioItems st ! a) - {h}"
  "dependers (releaseDep h a st) = dependers st"
  "blockTxns (releaseDep h a st) = blockTxns st"
  by (auto simp: releaseDep_def Let_def pendingDeps_def split: option.splits)

lemma releaseDep_queue:
  "set (items (priorityQueue (releaseDep h a st))) =
     (if (case item_dependsOn (prioItems st ! a) of None \<Rightarrow> True | Some hs \<Rightarrow> removeAll h hs = [])
      then insert a (set (items (priorityQueue st)))
      else set (items (priorityQueue st)))"
  by (simp add: releaseDep_def Let_def set_items_pq_heapPush split: option.splits)

lemma removeAll_eq_Nil_iff: "removeAll h xs = [] \<longleftrightarrow> set xs \<subseteq> {h}"
  by (induction xs) auto

lemma releaseDep_inv:
  assumes q: "queueInv st" and d: "depsInv env st" and a: "a < length (prioItems st)"
    and h: "h \<in> TxHash env ` set (tl (blockTxns st))"
  shows "queueInv (releaseDep h a st)" and "depsInv env (releaseDep h a st)"
proof -
  let ?s = "releaseDep h a st"
  note f = releaseDep_fields[where h=h and a=a and st=st]
  have tx: "item_tx (prioItems ?s ! b) = item_tx (prioItems st ! b)" for b
    using f(2)[of b] f(3) a by (cases "b = a") simp_all
  have pd: "pendingDeps (prioItems ?s ! b) = (if b = a then pendingDeps (prioItems st ! b) - {h}
      else pendingDeps (prioItems st ! b))" for b
    using f(2)[of b] f(4) a by (cases "b = a") simp_all
  have "x < length (prioItems ?s) \<and> pendingDeps (prioItems ?s ! x) = {}"
    if "x \<in> set (items (priorityQueue ?s))" for x
  proof (cases "x \<in> set (items (priorityQueue st))")
    case True
    with q show ?thesis unfolding queueInv_def f(1) pd by auto
  next
    case False
    with that have "x = a"
      and "(case item_dependsOn (prioItems st ! a) of None \<Rightarrow> True | Some hs \<Rightarrow> removeAll h hs = [])"
      unfolding releaseDep_queue by (auto split: if_splits)
    then show ?thesis using a unfolding f(1) pd
      by (auto simp: pendingDeps_def removeAll_eq_Nil_iff split: option.splits)
  qed
  moreover have "snd dd < length (prioItems ?s)" if "dd \<in> set (dependersOf ?s hh)" for dd hh
    using that q unfolding queueInv_def f(1) dependersOf_cong[OF f(5)] by blast
  ultimately show "queueInv ?s" unfolding queueInv_def by blast
  show "depsInv env ?s"
    using d h unfolding depsInv_def f(1) f(6) tx pd by auto
qed

lemma promoteDeps_inv:
  assumes "queueInv st" and "depsInv env st"
    and "\<forall>d \<in> set ds. snd d < length (prioItems st)"
    and "h \<in> TxHash env ` set (tl (blockTxns st))"
  shows "queueInv (promoteDeps h ds st) \<and> depsInv env (promoteDeps h ds st)"
  using assms
proof (induction ds arbitrary: st)
  case Nil
  then show ?case by simp
next
  case (Cons d ds)
  from Cons.prems(3) have a: "snd d < length (prioItems st)" by simp
  note r = releaseDep_inv[OF Cons.prems(1,2) a Cons.prems(4)]
  have "queueInv (promoteDeps h ds (releaseDep h (snd d) st)) \<and>
      depsInv env (promoteDeps h ds (releaseDep h (snd d) st))"
    using Cons.prems(3,4) by (intro Cons.IH r) (simp_all add: releaseDep_fields)
  then show ?case by (simp add: promoteDeps_Cons)
qed

lemma in_set_tl_conv_nth:
  "x \<in> set (tl xs) \<longleftrightarrow> (\<exists>j. 0 < j \<and> j < length xs \<and> xs ! j = x)"
proof (cases xs)
  case Nil
  then show ?thesis by simp
next
  case (Cons y ys)
  have "x \<in> set ys \<longleftrightarrow> (\<exists>j. 0 < j \<and> j < Suc (length ys) \<and> (y # ys) ! j = x)"
  proof
    assume "x \<in> set ys"
    then obtain i where "i < length ys" "ys ! i = x" by (auto simp: in_set_conv_nth)
    then have "0 < Suc i \<and> Suc i < Suc (length ys) \<and> (y # ys) ! Suc i = x" by simp
    then show "\<exists>j. 0 < j \<and> j < Suc (length ys) \<and> (y # ys) ! j = x" by blast
  next
    assume "\<exists>j. 0 < j \<and> j < Suc (length ys) \<and> (y # ys) ! j = x"
    then obtain j where "0 < j" "j < Suc (length ys)" "(y # ys) ! j = x" by blast
    then show "x \<in> set ys" by (cases j) auto
  qed
  with Cons show ?thesis by simp
qed

lemma addToBlock_inv:
  assumes q: "queueInv st" and d: "depsInv env st" and a: "a < length (prioItems st)"
    and p: "pendingDeps (prioItems st ! a) = {}"
    and r: "\<forall>al. mset (rangeOrder env al) = mset al"
  shows "queueInv (addToBlock env h a n st) \<and> depsInv env (addToBlock env h a n st)"
proof -
  let ?tx = "item_tx (prioItems st ! a)"
  let ?deps = "case dependers st (TxHash env ?tx) of None \<Rightarrow> [] | Some deps \<Rightarrow> deps"
  let ?st1 = "st\<lparr>blockUtxos := spendTransaction env (blockUtxos st) ?tx h,
               blockTxns := blockTxns st @ [?tx],
               blockSize := blockSize st + word_of_int (SerializeSize env ?tx),
               blockSigOps := blockSigOps st + n,
               totalFees := totalFees st + item_fee (prioItems st ! a),
               txFees := txFees st @ [item_fee (prioItems st ! a)],
               txSigOpCounts := txSigOpCounts st @ [n]\<rparr>"
  have eq: "addToBlock env h a n st = promoteDeps (TxHash env ?tx) (rangeOrder env ?deps) ?st1"
    by (simp add: addToBlock_def Let_def)
  from d have ne: "blockTxns st \<noteq> []" by (simp add: depsInv_def)
  have q1: "queueInv ?st1" using q by (simp add: queueInv_def dependersOf_def)
  from d a obtain utxos where fu: "FetchUtxoView env ?tx = Inr utxos"
    and rp: "set (recordedParents env ?tx) \<subseteq> TxHash env ` set (tl (blockTxns st))"
    using p unfolding depsInv_def by blast
  have new: "afterParents env (blockTxns st @ [?tx]) (length (blockTxns st))"
    unfolding afterParents_def
  proof (intro conjI ballI)
    show "\<exists>utxos. FetchUtxoView env ((blockTxns st @ [?tx]) ! length (blockTxns st)) = Inr utxos"
      using fu by simp
    fix hh assume "hh \<in> set (recordedParents env ((blockTxns st @ [?tx]) ! length (blockTxns st)))"
    then have "hh \<in> TxHash env ` set (tl (blockTxns st))" using rp by auto
    then obtain j where "0 < j" "j < length (blockTxns st)" "TxHash env (blockTxns st ! j) = hh"
      by (auto simp: in_set_tl_conv_nth)
    then have "0 < j \<and> j < length (blockTxns st) \<and> TxHash env ((blockTxns st @ [?tx]) ! j) = hh"
      by (simp add: nth_append)
    then show "\<exists>j>0. j < length (blockTxns st) \<and> TxHash env ((blockTxns st @ [?tx]) ! j) = hh"
      by blast
  qed
  have old: "afterParents env (blockTxns st @ [?tx]) i"
    if "0 < i" "i < length (blockTxns st)" for i
  proof -
    from d that have ap: "afterParents env (blockTxns st) i" by (simp add: depsInv_def)
    have i: "(blockTxns st @ [?tx]) ! i = blockTxns st ! i" using that by (simp add: nth_append)
    have "\<exists>j. 0 < j \<and> j < i \<and> TxHash env ((blockTxns st @ [?tx]) ! j) = hh"
      if "hh \<in> set (recordedParents env (blockTxns st ! i))" for hh
    proof -
      from ap that obtain j where j: "0 < j" "j < i" "TxHash env (blockTxns st ! j) = hh"
        unfolding afterParents_def by blast
      with \<open>i < length (blockTxns st)\<close> have "(blockTxns st @ [?tx]) ! j = blockTxns st ! j"
        by (simp add: nth_append)
      with j show ?thesis by auto
    qed
    with ap show ?thesis unfolding afterParents_def i by blast
  qed
  have ap: "afterParents env (blockTxns st @ [?tx]) i"
    if "0 < i \<and> i < length (blockTxns st @ [?tx])" for i
    using that old[of i] new by (cases "i = length (blockTxns st)") auto
  have it: "(\<exists>utxos. FetchUtxoView env (item_tx (prioItems st ! b)) = Inr utxos) \<and>
      set (recordedParents env (item_tx (prioItems st ! b)))
        \<subseteq> pendingDeps (prioItems st ! b) \<union> TxHash env ` set (tl (blockTxns st @ [?tx]))"
    if "b < length (prioItems st)" for b
    using d that ne unfolding depsInv_def by auto
  have d1: "depsInv env ?st1"
    unfolding depsInv_def using it ap by simp
  have "set (rangeOrder env ?deps) = set ?deps"
    using r by (metis set_mset_mset)
  then have rng: "\<forall>dd \<in> set (rangeOrder env ?deps). snd dd < length (prioItems ?st1)"
    using q unfolding queueInv_def dependersOf_def by simp
  have hin: "TxHash env ?tx \<in> TxHash env ` set (tl (blockTxns ?st1))"
    using ne by simp
  from promoteDeps_inv[OF q1 d1 rng hin] show ?thesis unfolding eq .
qed

lemma assemblyStep_inv:
  assumes q: "queueInv st" and d: "depsInv env st"
    and r: "\<forall>al. mset (rangeOrder env al) = mset al"
    and ne: "items (priorityQueue st) \<noteq> []"
  shows "queueInv (assemblyStep env policy h st) \<and> depsInv env (assemblyStep env policy h st)"
  using ne
proof (cases rule: assemblyStep_cases[where env=env and policy=policy and h=h])
  case (skip pq b)
  from skip(2) have "set (items pq) \<subseteq> set (items (priorityQueue st))"
    by (metis set_mset_mset set_mset_add_mset_insert subset_insertI)
  with q d show ?thesis unfolding skip(1) queueInv_def depsInv_def dependersOf_def by auto
next
  case (requeue pq)
  from requeue(2) have "set (items pq) = set (items (priorityQueue st))"
    by (metis set_mset_mset)
  with q d show ?thesis unfolding requeue(1) queueInv_def depsInv_def dependersOf_def by auto
next
  case (accept pq b n)
  let ?a = "hd (items (priorityQueue st))"
  let ?s = "st\<lparr>priorityQueue := pq, sortedByFee := b\<rparr>"
  from accept(2) have "set (items pq) \<subseteq> set (items (priorityQueue st))"
    by (metis set_mset_mset set_mset_add_mset_insert subset_insertI)
  with q d have qs: "queueInv ?s" and ds: "depsInv env ?s"
    unfolding queueInv_def depsInv_def dependersOf_def by auto
  from ne have "?a \<in> set (items (priorityQueue st))" by simp
  with q have "?a < length (prioItems ?s)" "pendingDeps (prioItems ?s ! ?a) = {}"
    unfolding queueInv_def by auto
  from addToBlock_inv[OF qs ds this r] show ?thesis unfolding accept(1) .
qed

section \<open>Parents before children\<close>


lemma items_SetLessFunc_Nil: "items pq = [] \<Longrightarrow> items (SetLessFunc store pq f) = []"
  using mset_items_SetLessFunc[of store pq f] by (metis mset_zero_iff)

lemma items_newTxPriorityQueue: "items (newTxPriorityQueue [] b) = []"
  by (simp add: newTxPriorityQueue_def Let_def items_SetLessFunc_Nil)

lemma initialLocals_inv:
  "queueInv (initialLocals env policy cb) \<and> depsInv env (initialLocals env policy cb)"
  by (simp add: queueInv_def depsInv_def initialLocals_def Let_def items_newTxPriorityQueue
      dependersOf_def)

lemma selectTransactions_deps:
  assumes sel: "selectTransactions env policy addr = Some (Inr st)"
    and r: "\<forall>al. mset (rangeOrder env al) = mset al"
  shows "depsInv env st"
proof -
  let ?h = "best_Height (BestSnapshot env) + 1"
  from sel obtain cb st1 where
    ml: "mempoolLoop env ?h (MiningDescs env) (initialLocals env policy cb) = Inr st1"
    and al: "assemblyLoop env policy ?h st1 = Some st"
    by (auto simp: selectTransactions_def Let_def split: sum.splits option.splits)
  let ?P = "\<lambda>s. queueInv s \<and> depsInv env s"
  from initialLocals_inv[of env policy cb] have "?P st1"
    by (intro mempoolLoop_inv[OF _ _ ml]) simp_all
  from assemblyLoop_rule[of env policy ?h st1 st ?P, OF al this] assemblyStep_inv[OF _ _ r]
  show ?thesis by blast
qed

lemma recordedDeps_complete:
  assumes "\<forall>txIn \<in> set ins. inputMissing env utxos txIn \<longrightarrow>
      HaveTransaction env (op_Hash (PreviousOutPoint txIn))"
    and "txIn \<in> set ins" and "inputMissing env utxos txIn"
  shows "op_Hash (PreviousOutPoint txIn) \<in> set (recordedDeps env utxos ins)"
  using assms by (induction ins) auto

lemma exRunChecked: "NewBlockTemplate exEnvChecked exPolicy None () = Some (Inr exTemplate)"
  by code_simp

lemma exRunStrayChecked:
  "NewBlockTemplate exEnvStrayChecked exPolicyMinSize None () = Some (Inr exTemplateParent)"
  by code_simp

subsection \<open>The working view\<close>

lemma LookupEntry_mergeUtxoView:
  "LookupEntry (mergeUtxoView env viewA viewB) h \<noteq> None \<Longrightarrow>
   LookupEntry viewA h \<noteq> None \<or> LookupEntry viewB h \<noteq> None"
  by (auto simp: LookupEntry_def mergeUtxoView_def split: option.splits if_splits)

lemma LookupEntry_spendInputs:
  "LookupEntry (spendInputs env view ins) h \<noteq> None \<Longrightarrow> LookupEntry view h \<noteq> None"
proof (induction ins arbitrary: view)
  case Nil
  then show ?case by simp
next
  case (Cons txIn ins)
  show ?case
  proof (cases "LookupEntry view (op_Hash (PreviousOutPoint txIn))")
    case None
    with Cons show ?thesis by (simp add: Let_def)
  next
    case (Some entry)
    let ?v = "view(op_Hash (PreviousOutPoint txIn) :=
        Some (Some (SpendOutput env entry (op_Index (PreviousOutPoint txIn)))))"
    from Cons.prems Some have "LookupEntry (spendInputs env ?v ins) h \<noteq> None"
      by (simp add: Let_def)
    from Cons.IH[OF this] Some show ?thesis
      by (auto simp: LookupEntry_def split: if_splits)
  qed
qed

lemma viewInv_timeCalls [simp]: "viewInv env (st\<lparr>timeCalls := c\<rparr>) = viewInv env st"
  by (simp add: viewInv_def)

lemma inChainViewI:
  assumes "d \<in> set (MiningDescs env)" and "FetchUtxoView env (desc_Tx d) = Inr utxos"
    and "LookupEntry utxos h \<noteq> None"
  shows "inChainView env h"
  using assms by (auto simp: inChainView_def list_ex_iff intro!: bexI[of _ d])

lemma completePrioItem_view:
  assumes c: "completePrioItem env hh txDesc utxos a st = Inr st'"
  shows "blockUtxos st' = mergeUtxoView env (blockUtxos st) utxos"
  using c by (auto simp: completePrioItem_def Let_def split: if_splits)

lemma mempoolStep_viewInv:
  assumes inv: "viewInv env st" and d: "txDesc \<in> set (MiningDescs env)"
    and m: "mempoolStep env hh txDesc st = Inr st'"
  shows "viewInv env st'"
proof (cases "IsCoinBase env (desc_Tx txDesc)")
  case True
  with m inv show ?thesis by (simp add: mempoolStep_def)
next
  case False
  let ?tx = "desc_Tx txDesc"
  let ?c = "Suc (timeCalls st)"
  show ?thesis
  proof (cases "IsFinalizedTransaction env ?tx hh (AdjustedTime env (timeCalls st))")
    case nf: False
    with False m have "st' = st\<lparr>timeCalls := ?c\<rparr>"
      by (auto simp: mempoolStep_def Let_def)
    with inv show ?thesis by simp
  next
    case fin: True
    show ?thesis
    proof (cases "FetchUtxoView env ?tx")
      case (Inl err)
      with False fin m have "st' = st\<lparr>timeCalls := ?c\<rparr>"
        by (auto simp: mempoolStep_def Let_def)
      with inv show ?thesis by simp
    next
      case (Inr utxos)
      let ?a = "length (prioItems st)"
      let ?st2 = "st\<lparr>timeCalls := ?c, prioItems := prioItems st @ [newPrioItem ?tx]\<rparr>"
      let ?sc = "setupDependencies env utxos ?a (tx_TxIn ?tx) ?st2"
      note fr = setupDependencies_frame[of env utxos ?a "tx_TxIn ?tx" ?st2]
      have i3: "viewInv env (snd ?sc)"
        using inv fr unfolding viewInv_def by simp
      show ?thesis
      proof (cases "fst ?sc")
        case False
        with \<open>\<not> IsCoinBase env ?tx\<close> fin Inr m have "st' = snd ?sc"
          by (simp add: mempoolStep_def Let_def)
        with i3 show ?thesis by simp
      next
        case True
        with \<open>\<not> IsCoinBase env ?tx\<close> fin Inr m
        have c: "completePrioItem env hh txDesc utxos ?a (snd ?sc) = Inr st'"
          by (simp add: mempoolStep_def Let_def)
        have bt: "blockTxns st' = blockTxns (snd ?sc)"
          using completePrioItem_frame[OF c] by simp
        have "inChainView env h \<or> h \<in> TxHash env ` set (tl (blockTxns st'))"
          if "LookupEntry (blockUtxos st') h \<noteq> None" for h
        proof -
          from that LookupEntry_mergeUtxoView[of env "blockUtxos (snd ?sc)" utxos h]
          have "LookupEntry (blockUtxos (snd ?sc)) h \<noteq> None \<or> LookupEntry utxos h \<noteq> None"
            unfolding completePrioItem_view[OF c] by blast
          then show ?thesis
          proof
            assume "LookupEntry (blockUtxos (snd ?sc)) h \<noteq> None"
            with i3 show ?thesis unfolding viewInv_def bt by blast
          next
            assume "LookupEntry utxos h \<noteq> None"
            from inChainViewI[OF d Inr this] show ?thesis by simp
          qed
        qed
        with i3 show ?thesis unfolding viewInv_def bt by blast
      qed
    qed
  qed
qed

lemma mempoolLoop_viewInv:
  assumes "viewInv env st" and "set descs \<subseteq> set (MiningDescs env)"
    and "mempoolLoop env hh descs st = Inr st'"
  shows "viewInv env st'"
  using assms
proof (induction descs arbitrary: st)
  case Nil
  then show ?case by simp
next
  case (Cons d descs)
  from Cons.prems(3) obtain st1 where s1: "mempoolStep env hh d st = Inr st1"
    and l: "mempoolLoop env hh descs st1 = Inr st'"
    by (auto split: sum.splits)
  from Cons.prems(2) have "d \<in> set (MiningDescs env)" "set descs \<subseteq> set (MiningDescs env)"
    by simp_all
  from Cons.IH[OF mempoolStep_viewInv[OF Cons.prems(1) this(1) s1] this(2) l]
  show ?case .
qed

lemma addToBlock_view:
  "blockUtxos (addToBlock env hh a n st) =
     spendTransaction env (blockUtxos st) (item_tx (prioItems st ! a)) hh"
  by (simp add: addToBlock_def Let_def promoteDeps_frame)

lemma addToBlock_viewInv:
  assumes inv: "viewInv env st"
    and add: "\<forall>view tx height h. LookupEntry (AddTxOuts env view tx height) h \<noteq> None \<longrightarrow>
        h = TxHash env tx \<or> LookupEntry view h \<noteq> None"
    and chk: "\<forall>txIn \<in> set (tx_TxIn (item_tx (prioItems st ! a))).
        \<not> inputMissing env (blockUtxos st) txIn"
  shows "viewInv env (addToBlock env hh a n st)"
proof -
  let ?tx = "item_tx (prioItems st ! a)"
  let ?s = "addToBlock env hh a n st"
  from inv have ne: "blockTxns st \<noteq> []" by (simp add: viewInv_def)
  have bt: "blockTxns ?s = blockTxns st @ [?tx]" by (rule addToBlock_fields)
  have tl: "tl (blockTxns ?s) = tl (blockTxns st) @ [?tx]" using ne by (simp add: bt)
  have known: "inChainView env h \<or> h \<in> TxHash env ` set (tl (blockTxns st))"
    if "LookupEntry (blockUtxos st) h \<noteq> None" for h
    using inv that unfolding viewInv_def by blast
  have 2: "inChainView env h \<or> h \<in> TxHash env ` set (tl (blockTxns ?s))"
    if "LookupEntry (blockUtxos ?s) h \<noteq> None" for h
  proof -
    from that add have "h = TxHash env ?tx \<or>
        LookupEntry (spendInputs env (blockUtxos st) (tx_TxIn ?tx)) h \<noteq> None"
      unfolding addToBlock_view spendTransaction_def by blast
    then show ?thesis
    proof
      assume "h = TxHash env ?tx"
      then show ?thesis unfolding tl by simp
    next
      assume "LookupEntry (spendInputs env (blockUtxos st) (tx_TxIn ?tx)) h \<noteq> None"
      from known[OF LookupEntry_spendInputs[OF this]] show ?thesis unfolding tl by auto
    qed
  qed
  have old: "inputsKnown env (blockTxns ?s) i" if "0 < i" "i < length (blockTxns st)" for i
  proof -
    from inv that have k: "inputsKnown env (blockTxns st) i" by (simp add: viewInv_def)
    have i: "(blockTxns st @ [?tx]) ! i = blockTxns st ! i" using that by (simp add: nth_append)
    have "inChainView env (op_Hash (PreviousOutPoint txIn)) \<or>
        (\<exists>j. 0 < j \<and> j < i \<and>
           TxHash env ((blockTxns st @ [?tx]) ! j) = op_Hash (PreviousOutPoint txIn))"
      if t: "txIn \<in> set (tx_TxIn (blockTxns st ! i))" for txIn
    proof (cases "inChainView env (op_Hash (PreviousOutPoint txIn))")
      case True
      then show ?thesis by simp
    next
      case False
      with k t obtain j where j: "0 < j" "j < i"
        "TxHash env (blockTxns st ! j) = op_Hash (PreviousOutPoint txIn)"
        unfolding inputsKnown_def by blast
      with \<open>i < length (blockTxns st)\<close> have "(blockTxns st @ [?tx]) ! j = blockTxns st ! j"
        by (simp add: nth_append)
      with j show ?thesis by auto
    qed
    then show ?thesis unfolding inputsKnown_def bt i by blast
  qed
  have new: "inputsKnown env (blockTxns ?s) (length (blockTxns st))"
    unfolding inputsKnown_def bt
  proof
    fix txIn assume "txIn \<in> set (tx_TxIn ((blockTxns st @ [?tx]) ! length (blockTxns st)))"
    then have t: "txIn \<in> set (tx_TxIn ?tx)" by simp
    let ?o = "op_Hash (PreviousOutPoint txIn)"
    from chk t have "LookupEntry (blockUtxos st) ?o \<noteq> None"
      by (auto simp: inputMissing_def split: option.splits)
    from known[OF this] show "inChainView env ?o \<or>
        (\<exists>j. 0 < j \<and> j < length (blockTxns st) \<and>
           TxHash env ((blockTxns st @ [?tx]) ! j) = ?o)"
    proof
      assume "inChainView env ?o"
      then show ?thesis by simp
    next
      assume "?o \<in> TxHash env ` set (tl (blockTxns st))"
      then obtain j where "0 < j" "j < length (blockTxns st)" "TxHash env (blockTxns st ! j) = ?o"
        by (auto simp: in_set_tl_conv_nth)
      then have "0 < j \<and> j < length (blockTxns st) \<and>
          TxHash env ((blockTxns st @ [?tx]) ! j) = ?o"
        by (simp add: nth_append)
      then show ?thesis by blast
    qed
  qed
  have 3: "inputsKnown env (blockTxns ?s) i" if "0 < i \<and> i < length (blockTxns ?s)" for i
    using that old[of i] new unfolding bt by (cases "i = length (blockTxns st)") auto
  have 1: "blockTxns ?s \<noteq> []" by (simp add: bt)
  show ?thesis unfolding viewInv_def using 1 2 3 by blast
qed

text \<open>A pass of the choosing loop adds a transaction only after the check of its inputs.\<close>

lemma checkAndAdd_checked:
  obtains (reject) "checkAndAdd env hh a n st = st"
  | (add) "checkAndAdd env hh a n st = addToBlock env hh a n st"
      "CheckTransactionInputs env (item_tx (prioItems st ! a)) hh (blockUtxos st) = None"
proof -
  have "checkAndAdd env hh a n st = st \<or>
      (checkAndAdd env hh a n st = addToBlock env hh a n st \<and>
       CheckTransactionInputs env (item_tx (prioItems st ! a)) hh (blockUtxos st) = None)"
    by (simp add: checkAndAdd_def Let_def)
  then show thesis using reject add by blast
qed

lemma viewInv_queue [simp]:
  "viewInv env (st\<lparr>priorityQueue := pq\<rparr>) = viewInv env st"
  "viewInv env (st\<lparr>sortedByFee := b\<rparr>) = viewInv env st"
  by (simp_all add: viewInv_def)

lemma assemblyStep_viewInv:
  assumes inv: "viewInv env st"
    and add: "\<forall>view tx height h. LookupEntry (AddTxOuts env view tx height) h \<noteq> None \<longrightarrow>
        h = TxHash env tx \<or> LookupEntry view h \<noteq> None"
    and chk: "\<forall>tx height view. CheckTransactionInputs env tx height view = None \<longrightarrow>
        (\<forall>txIn \<in> set (tx_TxIn tx). \<not> inputMissing env view txIn)"
  shows "viewInv env (assemblyStep env policy hh st)"
proof -
  have ca: "viewInv env (checkAndAdd env hh a n s)" if "viewInv env s" for a n s
  proof (cases rule: checkAndAdd_checked[of env hh a n s])
    case reject
    with that show ?thesis by simp
  next
    case add
    from chk add(2) have "\<forall>txIn \<in> set (tx_TxIn (item_tx (prioItems s ! a))).
        \<not> inputMissing env (blockUtxos s) txIn" by blast
    from addToBlock_viewInv[OF that \<open>\<forall>view tx height h. _\<close> this] show ?thesis
      unfolding add(1) .
  qed
  have sw: "viewInv env (switchToFee env policy hh a bp n s)" if "viewInv env s" for a bp n s
  proof (cases rule: switchToFee_cases[of s env policy hh a bp n])
    case requeue
    with that show ?thesis by simp
  next
    case switch
    from ca[of "s\<lparr>sortedByFee := True,
        priorityQueue := SetLessFunc (prioItems s) (priorityQueue s) txPQByFee\<rparr>" a n] that
    show ?thesis unfolding switch(2) by simp
  next
    case stay
    with ca[OF that] show ?thesis by simp
  qed
  show ?thesis
  proof (cases rule: assemblyStep_gates[of env policy hh st])
    case skip
    with inv show ?thesis by simp
  next
    case (pass n)
    show ?thesis unfolding pass(1) using inv by (intro sw) simp
  qed
qed


lemma selectTransactions_view:
  assumes sel: "selectTransactions env policy addr = Some (Inr st)"
    and chk: "\<forall>tx height view. CheckTransactionInputs env tx height view = None \<longrightarrow>
        (\<forall>txIn \<in> set (tx_TxIn tx). \<not> inputMissing env view txIn)"
    and add: "\<forall>view tx height h. LookupEntry (AddTxOuts env view tx height) h \<noteq> None \<longrightarrow>
        h = TxHash env tx \<or> LookupEntry view h \<noteq> None"
  shows "viewInv env st"
proof -
  let ?h = "best_Height (BestSnapshot env) + 1"
  from sel obtain cb st1 where
    ml: "mempoolLoop env ?h (MiningDescs env) (initialLocals env policy cb) = Inr st1"
    and al: "assemblyLoop env policy ?h st1 = Some st"
    by (auto simp: selectTransactions_def Let_def split: sum.splits option.splits)
  have "viewInv env (initialLocals env policy cb)"
    by (simp add: viewInv_def initialLocals_def Let_def LookupEntry_def)
  from mempoolLoop_viewInv[OF this _ ml] have "viewInv env st1" by simp
  from assemblyLoop_rule[of env policy ?h st1 st "viewInv env", OF al this]
    assemblyStep_viewInv[OF _ add chk]
  show ?thesis by blast
qed

text \<open>
  C2. In a returned template every transaction \<open>T\<close> after the coinbase spends only
  transactions that are confirmed in the chain view or stand at an earlier index of
  the block, after the coinbase; so a pool transaction whose output \<open>T\<close> spends is
  confirmed or earlier, and a child whose unconfirmed parent is not in the block is
  not in it either. And every parent that the first loop recorded in \<open>dependsOn\<close> for
  \<open>T\<close> stands at an earlier index. \<open>blockchain.CheckTransactionInputs\<close> and
  \<open>UtxoViewpoint.AddTxOuts\<close> are not in mining.go: the first is taken to refuse a
  transaction with an input that the working view lacks or holds as spent, the second
  to add no entry but that of the transaction, and \<open>range\<close> to visit every entry of a
  map once.
\<close>

theorem NewBlockTemplate_parents_first:
  assumes ok: "NewBlockTemplate env policy payToAddress validateKey = Some (Inr tmpl)"
    and chk: "\<forall>tx height view. CheckTransactionInputs env tx height view = None \<longrightarrow>
        (\<forall>txIn \<in> set (tx_TxIn tx). \<not> inputMissing env view txIn)"
    and add: "\<forall>view tx height h. LookupEntry (AddTxOuts env view tx height) h \<noteq> None \<longrightarrow>
        h = TxHash env tx \<or> LookupEntry view h \<noteq> None"
    and r: "\<forall>al. mset (rangeOrder env al) = mset al"
    and i: "0 < i" "i < length (Transactions (Block tmpl))"
  shows "(\<forall>txIn \<in> set (tx_TxIn (Transactions (Block tmpl) ! i)).
           inChainView env (op_Hash (PreviousOutPoint txIn)) \<or>
           (\<exists>j. 0 < j \<and> j < i \<and>
              TxHash env (Transactions (Block tmpl) ! j) = op_Hash (PreviousOutPoint txIn))) \<and>
         (\<exists>utxos. FetchUtxoView env (Transactions (Block tmpl) ! i) = Inr utxos \<and>
           (\<forall>h \<in> set (recordedDeps env utxos (tx_TxIn (Transactions (Block tmpl) ! i))).
              \<exists>j. 0 < j \<and> j < i \<and> TxHash env (Transactions (Block tmpl) ! j) = h))"
proof -
  from ok obtain st where sel: "selectTransactions env policy payToAddress = Some (Inr st)"
    and fin: "finishTemplate env payToAddress validateKey st = Inr tmpl"
    by (rule NewBlockTemplate_Inr)
  from finishTemplate_Inr(5)[OF fin] obtain cb' where
    txs: "Transactions (Block tmpl) = (blockTxns st)[0 := cb']"
    by blast
  have nth: "Transactions (Block tmpl) ! j = blockTxns st ! j" if "0 < j" for j
    using that by (simp add: txs)
  have len: "length (Transactions (Block tmpl)) = length (blockTxns st)"
    by (simp add: txs)
  from selectTransactions_view[OF sel chk add] i have "inputsKnown env (blockTxns st) i"
    by (simp add: viewInv_def len)
  then have 1: "inChainView env (op_Hash (PreviousOutPoint txIn)) \<or>
      (\<exists>j. 0 < j \<and> j < i \<and>
         TxHash env (Transactions (Block tmpl) ! j) = op_Hash (PreviousOutPoint txIn))"
    if "txIn \<in> set (tx_TxIn (Transactions (Block tmpl) ! i))" for txIn
  proof (cases "inChainView env (op_Hash (PreviousOutPoint txIn))")
    case True
    then show ?thesis by simp
  next
    case False
    with \<open>inputsKnown env (blockTxns st) i\<close> that obtain j where "0 < j" "j < i"
      "TxHash env (blockTxns st ! j) = op_Hash (PreviousOutPoint txIn)"
      unfolding inputsKnown_def nth[OF i(1)] by blast
    then show ?thesis using nth[of j] by auto
  qed
  from selectTransactions_deps[OF sel r] i have "afterParents env (blockTxns st) i"
    by (simp add: depsInv_def len)
  then obtain utxos where fu: "FetchUtxoView env (blockTxns st ! i) = Inr utxos"
    and par: "\<forall>h \<in> set (recordedDeps env utxos (tx_TxIn (blockTxns st ! i))).
        \<exists>j. 0 < j \<and> j < i \<and> TxHash env (blockTxns st ! j) = h"
    by (auto simp: afterParents_def recordedParents_def)
  have par': "\<exists>j. 0 < j \<and> j < i \<and> TxHash env (Transactions (Block tmpl) ! j) = h"
    if "h \<in> set (recordedDeps env utxos (tx_TxIn (blockTxns st ! i)))" for h
  proof -
    from par that obtain j where "0 < j" "j < i" "TxHash env (blockTxns st ! j) = h" by blast
    then show ?thesis using nth[of j] by auto
  qed
  have 2: "FetchUtxoView env (Transactions (Block tmpl) ! i) = Inr utxos \<and>
      (\<forall>h \<in> set (recordedDeps env utxos (tx_TxIn (Transactions (Block tmpl) ! i))).
         \<exists>j. 0 < j \<and> j < i \<and> TxHash env (Transactions (Block tmpl) ! j) = h)"
    unfolding nth[OF i(1)] using fu par' by blast
  from 1 2 show ?thesis by blast
qed

text \<open>
  On the example pool, with the input check that reads the working view, the child
  \<open>exTx 2\<close> is at index 2 and its parent, of hash 1 and not confirmed, at index 1.
\<close>

theorem NewBlockTemplate_parents_first_witness:
  "NewBlockTemplate exEnvChecked exPolicy None () = Some (Inr exTemplate) \<and>
   Transactions (Block exTemplate) ! 2 = exTx 2 [(1, 0)] [[0x51]] \<and>
   \<not> inChainView exEnvChecked 1 \<and>
   (\<exists>j. 0 < j \<and> j < 2 \<and> TxHash exEnvChecked (Transactions (Block exTemplate) ! j) = 1)"
proof -
  have chk: "\<forall>tx height view. CheckTransactionInputs exEnvChecked tx height view = None \<longrightarrow>
      (\<forall>txIn \<in> set (tx_TxIn tx). \<not> inputMissing exEnvChecked view txIn)"
    by (auto simp: exEnvChecked_def exEnv_def inputMissing_def list_all_iff
        split: if_splits option.splits)
  have add: "\<forall>view tx height h.
      LookupEntry (AddTxOuts exEnvChecked view tx height) h \<noteq> None \<longrightarrow>
      h = TxHash exEnvChecked tx \<or> LookupEntry view h \<noteq> None"
    by (simp add: exEnvChecked_def exEnv_def LookupEntry_def)
  have r: "\<forall>al. mset (rangeOrder exEnvChecked al) = mset al"
    by (simp add: exEnvChecked_def exEnv_def)
  have l: "(2::nat) < length (Transactions (Block exTemplate))" by (simp add: exTemplate_def)
  have t: "Transactions (Block exTemplate) ! 2 = exTx 2 [(1, 0)] [[0x51]]"
    by (simp add: exTemplate_def)
  have n: "\<not> inChainView exEnvChecked 1"
    by (simp add: inChainView_def exEnvChecked_def exEnv_def LookupEntry_def)
  from NewBlockTemplate_parents_first[OF exRunChecked chk add r _ l]
  have "inChainView exEnvChecked 1 \<or>
      (\<exists>j. 0 < j \<and> j < 2 \<and> TxHash exEnvChecked (Transactions (Block exTemplate) ! j) = 1)"
    unfolding t by (simp add: exTx_def)
  with n t exRunChecked show ?thesis by blast
qed

text \<open>
  The pool of three with the same input check: the transaction that the first loop gave
  up is pushed when its first parent is added, and the check of its inputs refuses it.
\<close>

lemma abandoned_child_is_refused:
  "NewBlockTemplate exEnvStrayChecked exPolicyMinSize None () = Some (Inr exTemplateParent) \<and>
   exStray \<notin> set (Transactions (Block exTemplateParent))"
  using exRunStrayChecked
  by (simp add: exTemplateParent_def exStray_def exTx_def exCoinbase_def)
section \<open>Termination of NewBlockTemplate\<close>


subsection \<open>The first loop\<close>

lemma itemHash_nth:
  "a < length (prioItems st) \<Longrightarrow>
   map (\<lambda>item. TxHash env (item_tx item)) (prioItems st) ! a = itemHash env st a"
  by (simp add: itemHash_def)

lemma distinct_AList_update: "distinct (map fst al) \<Longrightarrow> distinct (map fst (AList.update k v al))"
  by (simp add: AList.distinct_update)

lemma registerDep_dependers:
  "dependersOf (registerDep env a h st) h' =
     (if h' = h then AList.update (itemHash env st a) a (dependersOf st h) else dependersOf st h')"
  by (simp add: registerDep_def dependersOf_def itemHash_def)

lemma registerDep_hashes:
  assumes "a < length (prioItems st)"
  shows "map (\<lambda>item. TxHash env (item_tx item)) (prioItems (registerDep env a h st)) =
     map (\<lambda>item. TxHash env (item_tx item)) (prioItems st)"
  using assms by (auto simp: registerDep_def list_eq_iff_nth_eq nth_list_update)

lemma registerDep_itemHash:
  assumes "a < length (prioItems st)"
  shows "itemHash env (registerDep env a h st) b = itemHash env st b"
  using assms by (cases "b = a") (simp_all add: itemHash_def registerDep_fields)

lemma registerDep_buildInv:
  assumes inv: "buildInv env st" and a: "a < length (prioItems st)"
    and nq: "a \<notin> set (items (priorityQueue st))"
  shows "buildInv env (registerDep env a h st)"
proof -
  let ?s = "registerDep env a h st"
  note f = registerDep_fields[where env=env and a=a and h=h and st=st]
  from inv have q: "queueInv st" and dq: "distinct (items (priorityQueue st))"
    and dh: "distinct (map (\<lambda>item. TxHash env (item_tx item)) (prioItems st))"
    and dk: "\<And>h. distinct (map fst (dependersOf st h))"
    and key: "\<And>h d. d \<in> set (dependersOf st h) \<Longrightarrow> fst d = itemHash env st (snd d)"
    and pen: "\<And>h d. d \<in> set (dependersOf st h) \<Longrightarrow> h \<in> pendingDeps (prioItems st ! snd d)"
    unfolding buildInv_def baseInv_def by blast+
  have pd: "pendingDeps (prioItems st ! b) \<subseteq> pendingDeps (prioItems ?s ! b)" for b
    using f(2)[of b] f(4)[OF a] by (cases "b = a") auto
  have mem: "d \<in> set (dependersOf st h') \<or> (h' = h \<and> d = (itemHash env st a, a))"
    if "d \<in> set (dependersOf ?s h')" for d h'
    using that set_AList_update[of "itemHash env st a" a "dependersOf st h"]
    by (auto simp: registerDep_dependers split: if_splits)
  have "x < length (prioItems ?s) \<and> pendingDeps (prioItems ?s ! x) = {}"
    if "x \<in> set (items (priorityQueue ?s))" for x
  proof -
    from that have x: "x \<in> set (items (priorityQueue st))" by (simp add: f(6))
    with nq have "x \<noteq> a" by auto
    with x q show ?thesis unfolding queueInv_def f(1) by (simp add: f(2))
  qed
  moreover have "snd d < length (prioItems ?s)" if "d \<in> set (dependersOf ?s h')" for d h'
    using mem[OF that] q a unfolding queueInv_def f(1) by auto
  ultimately have 1: "queueInv ?s" unfolding queueInv_def by blast
  have 2: "distinct (items (priorityQueue ?s))" using dq by (simp add: f(6))
  have 3: "distinct (map (\<lambda>item. TxHash env (item_tx item)) (prioItems ?s))"
    using dh by (simp add: registerDep_hashes[OF a])
  have 4: "distinct (map fst (dependersOf ?s h'))" for h'
    using dk by (simp add: registerDep_dependers distinct_AList_update)
  have 5: "fst d = itemHash env ?s (snd d)" if "d \<in> set (dependersOf ?s h')" for d h'
    using mem[OF that] key by (auto simp: registerDep_itemHash[OF a])
  have 6: "h' \<in> pendingDeps (prioItems ?s ! snd d)" if "d \<in> set (dependersOf ?s h')" for d h'
  proof -
    from mem[OF that] show ?thesis
    proof
      assume "d \<in> set (dependersOf st h')"
      from pen[OF this] pd[of "snd d"] show ?thesis by blast
    next
      assume "h' = h \<and> d = (itemHash env st a, a)"
      then show ?thesis using f(4)[OF a] by simp
    qed
  qed
  show ?thesis unfolding buildInv_def baseInv_def using 1 2 3 4 5 6 by blast
qed

lemma setupDependencies_buildInv:
  assumes "buildInv env st" and "a < length (prioItems st)"
    and "a \<notin> set (items (priorityQueue st))"
  shows "buildInv env (snd (setupDependencies env utxos a ins st))"
  using assms
proof (induction ins arbitrary: st)
  case Nil
  then show ?case by simp
next
  case (Cons txIn ins)
  let ?h = "op_Hash (PreviousOutPoint txIn)"
  have "buildInv env (snd (setupDependencies env utxos a ins (registerDep env a ?h st)))"
    using Cons.prems
    by (intro Cons.IH registerDep_buildInv) (simp_all add: registerDep_fields)
  with Cons show ?case by (simp add: setupDependencies_Cons)
qed

lemma setupDependencies_hashes:
  assumes "a < length (prioItems st)"
  shows "map (\<lambda>item. TxHash env (item_tx item)) (prioItems (snd (setupDependencies env utxos a ins st))) =
     map (\<lambda>item. TxHash env (item_tx item)) (prioItems st)"
  using assms
proof (induction ins arbitrary: st)
  case Nil
  then show ?case by simp
next
  case (Cons txIn ins)
  then show ?case
    by (simp add: setupDependencies_Cons registerDep_hashes registerDep_fields)
qed


lemma buildInv_timeCalls [simp]: "buildInv env (st\<lparr>timeCalls := c\<rparr>) = buildInv env st"
  by (simp add: buildInv_def baseInv_def dependersOf_def itemHash_def)

lemma buildInv_append:
  assumes inv: "buildInv env st"
    and fresh: "TxHash env tx \<notin> set (map (\<lambda>item. TxHash env (item_tx item)) (prioItems st))"
  shows "buildInv env (st\<lparr>timeCalls := c, prioItems := prioItems st @ [newPrioItem tx]\<rparr>)"
proof -
  let ?s = "st\<lparr>timeCalls := c, prioItems := prioItems st @ [newPrioItem tx]\<rparr>"
  from inv have q: "queueInv st" and dq: "distinct (items (priorityQueue st))"
    and dh: "distinct (map (\<lambda>item. TxHash env (item_tx item)) (prioItems st))"
    and dk: "\<And>h. distinct (map fst (dependersOf st h))"
    and key: "\<And>h d. d \<in> set (dependersOf st h) \<Longrightarrow> fst d = itemHash env st (snd d)"
    and pen: "\<And>h d. d \<in> set (dependersOf st h) \<Longrightarrow> h \<in> pendingDeps (prioItems st ! snd d)"
    unfolding buildInv_def baseInv_def by blast+
  have dep: "dependersOf ?s = dependersOf st" by (auto simp: dependersOf_def)
  have rng: "snd d < length (prioItems st)" if "d \<in> set (dependersOf st h)" for d h
    using q that unfolding queueInv_def by blast
  have old: "prioItems ?s ! b = prioItems st ! b" if "b < length (prioItems st)" for b
    using that by (simp add: nth_append)
  have "x < length (prioItems ?s) \<and> pendingDeps (prioItems ?s ! x) = {}"
    if "x \<in> set (items (priorityQueue ?s))" for x
    using that q unfolding queueInv_def by (auto simp: nth_append)
  moreover have "snd d < length (prioItems ?s)" if "d \<in> set (dependersOf ?s h)" for d h
    using that rng[of d h] unfolding dep by simp
  ultimately have 1: "queueInv ?s" unfolding queueInv_def by blast
  have 2: "distinct (items (priorityQueue ?s))" using dq by simp
  have 3: "distinct (map (\<lambda>item. TxHash env (item_tx item)) (prioItems ?s))"
    using dh fresh by (simp add: newPrioItem_def)
  have 4: "distinct (map fst (dependersOf ?s h))" for h
    using dk by (simp add: dep)
  have 5: "fst d = itemHash env ?s (snd d)" if "d \<in> set (dependersOf ?s h)" for d h
    using that key[of d h] rng[of d h] unfolding dep itemHash_def by (simp add: nth_append)
  have 6: "h \<in> pendingDeps (prioItems ?s ! snd d)" if "d \<in> set (dependersOf ?s h)" for d h
    using that pen[of d h] rng[of d h] unfolding dep by (simp add: nth_append)
  show ?thesis unfolding buildInv_def baseInv_def using 1 2 3 4 5 6 by blast
qed

lemma completePrioItem_hashes:
  assumes c: "completePrioItem env h txDesc utxos a s = Inr st'" and a: "a < length (prioItems s)"
  shows "map (\<lambda>item. TxHash env (item_tx item)) (prioItems st') =
     map (\<lambda>item. TxHash env (item_tx item)) (prioItems s)"
proof -
  note e = completePrioItem_effect[OF c a]
  have "item_tx (prioItems st' ! b) = item_tx (prioItems s ! b)" for b
    using e(2)[of b] e(3) by (cases "b = a") simp_all
  then show ?thesis using e(1) by (simp add: list_eq_iff_nth_eq)
qed

lemma completePrioItem_buildInv:
  assumes inv: "buildInv env s" and a: "a < length (prioItems s)"
    and nq: "a \<notin> set (items (priorityQueue s))"
    and c: "completePrioItem env h txDesc utxos a s = Inr st'"
  shows "buildInv env st'"
proof -
  note e = completePrioItem_effect[OF c a]
  from inv have q: "queueInv s" and dq: "distinct (items (priorityQueue s))"
    and dh: "distinct (map (\<lambda>item. TxHash env (item_tx item)) (prioItems s))"
    and dk: "\<And>h. distinct (map fst (dependersOf s h))"
    and key: "\<And>h d. d \<in> set (dependersOf s h) \<Longrightarrow> fst d = itemHash env s (snd d)"
    and pen: "\<And>h d. d \<in> set (dependersOf s h) \<Longrightarrow> h \<in> pendingDeps (prioItems s ! snd d)"
    unfolding buildInv_def baseInv_def by blast+
  have dep: "dependersOf st' = dependersOf s" by (rule dependersOf_cong[OF e(6)])
  have tx: "item_tx (prioItems st' ! b) = item_tx (prioItems s ! b)" for b
    using e(2)[of b] e(3) by (cases "b = a") simp_all
  have pd: "pendingDeps (prioItems st' ! b) = pendingDeps (prioItems s ! b)" for b
    using e(2)[of b] e(4) by (cases "b = a") (simp_all add: pendingDeps_def)
  have ms: "mset (items (priorityQueue st')) =
      (if item_dependsOn (prioItems s ! a) = None
       then add_mset a (mset (items (priorityQueue s))) else mset (items (priorityQueue s)))"
    by (rule e(5))
  have qs: "x \<in> set (items (priorityQueue s)) \<or> (x = a \<and> item_dependsOn (prioItems s ! a) = None)"
    if "x \<in> set (items (priorityQueue st'))" for x
    using that arg_cong[where f = set_mset, OF ms] by (auto split: if_splits)
  have "x < length (prioItems st') \<and> pendingDeps (prioItems st' ! x) = {}"
    if "x \<in> set (items (priorityQueue st'))" for x
    using qs[OF that] q a unfolding queueInv_def e(1) pd
    by (auto simp: pendingDeps_def)
  moreover have "snd dd < length (prioItems st')" if "dd \<in> set (dependersOf st' hh)" for dd hh
    using that q unfolding queueInv_def e(1) dep by blast
  ultimately have 1: "queueInv st'" unfolding queueInv_def by blast
  have "distinct (items (priorityQueue s)) \<and> a \<notin> set (items (priorityQueue s))"
    using dq nq by simp
  then have "distinct (a # items (priorityQueue s))" by simp
  then have 2: "distinct (items (priorityQueue st'))"
    using ms dq
    by (cases "item_dependsOn (prioItems s ! a) = None")
      (metis mset.simps(2) mset_eq_imp_distinct_iff, metis mset_eq_imp_distinct_iff)
  have 3: "distinct (map (\<lambda>item. TxHash env (item_tx item)) (prioItems st'))"
    using dh by (simp add: completePrioItem_hashes[OF c a])
  have 4: "distinct (map fst (dependersOf st' hh))" for hh
    using dk by (simp add: dep)
  have 5: "fst d = itemHash env st' (snd d)" if "d \<in> set (dependersOf st' hh)" for d hh
    using that key[of d hh] unfolding dep itemHash_def tx by simp
  have 6: "hh \<in> pendingDeps (prioItems st' ! snd d)" if "d \<in> set (dependersOf st' hh)" for d hh
    using that pen[of d hh] unfolding dep pd by simp
  show ?thesis unfolding buildInv_def baseInv_def using 1 2 3 4 5 6 by blast
qed

lemma mempoolStep_buildInv:
  assumes inv: "buildInv env st"
    and fresh: "TxHash env (desc_Tx txDesc) \<notin>
        set (map (\<lambda>item. TxHash env (item_tx item)) (prioItems st))"
    and m: "mempoolStep env h txDesc st = Inr st'"
  shows "buildInv env st' \<and>
     set (map (\<lambda>item. TxHash env (item_tx item)) (prioItems st')) \<subseteq>
       insert (TxHash env (desc_Tx txDesc))
         (set (map (\<lambda>item. TxHash env (item_tx item)) (prioItems st)))"
proof (cases "IsCoinBase env (desc_Tx txDesc)")
  case True
  with m inv show ?thesis by (auto simp: mempoolStep_def)
next
  case False
  let ?tx = "desc_Tx txDesc"
  let ?c = "Suc (timeCalls st)"
  show ?thesis
  proof (cases "IsFinalizedTransaction env ?tx h (AdjustedTime env (timeCalls st))")
    case nf: False
    with False m have "st' = st\<lparr>timeCalls := ?c\<rparr>"
      by (auto simp: mempoolStep_def Let_def)
    with inv show ?thesis by auto
  next
    case fin: True
    show ?thesis
    proof (cases "FetchUtxoView env ?tx")
      case (Inl err)
      with False fin m have "st' = st\<lparr>timeCalls := ?c\<rparr>"
        by (auto simp: mempoolStep_def Let_def)
      with inv show ?thesis by auto
    next
      case (Inr utxos)
      let ?a = "length (prioItems st)"
      let ?st2 = "st\<lparr>timeCalls := ?c, prioItems := prioItems st @ [newPrioItem ?tx]\<rparr>"
      let ?sc = "setupDependencies env utxos ?a (tx_TxIn ?tx) ?st2"
      have i2: "buildInv env ?st2" by (rule buildInv_append[OF inv fresh])
      have a2: "?a < length (prioItems ?st2)" by simp
      have nq2: "?a \<notin> set (items (priorityQueue ?st2))"
        using inv by (auto simp: buildInv_def baseInv_def queueInv_def)
      have i3: "buildInv env (snd ?sc)"
        by (rule setupDependencies_buildInv[OF i2 a2 nq2])
      have h3: "map (\<lambda>item. TxHash env (item_tx item)) (prioItems (snd ?sc)) =
          map (\<lambda>item. TxHash env (item_tx item)) (prioItems st) @ [TxHash env ?tx]"
        using setupDependencies_hashes[OF a2, of env utxos "tx_TxIn ?tx"]
        by (simp add: newPrioItem_def)
      note fr = setupDependencies_frame[of env utxos ?a "tx_TxIn ?tx" ?st2]
      have a3: "?a < length (prioItems (snd ?sc))" using fr by simp
      have nq3: "?a \<notin> set (items (priorityQueue (snd ?sc)))" using fr nq2 by simp
      show ?thesis
      proof (cases "fst ?sc")
        case False
        with \<open>\<not> IsCoinBase env ?tx\<close> fin Inr m have "st' = snd ?sc"
          by (simp add: mempoolStep_def Let_def)
        with i3 h3 show ?thesis by auto
      next
        case True
        with \<open>\<not> IsCoinBase env ?tx\<close> fin Inr m
        have c: "completePrioItem env h txDesc utxos ?a (snd ?sc) = Inr st'"
          by (simp add: mempoolStep_def Let_def)
        from completePrioItem_buildInv[OF i3 a3 nq3 c] completePrioItem_hashes[OF c a3] h3
        show ?thesis by auto
      qed
    qed
  qed
qed

lemma mempoolStep_length:
  assumes inv: "buildInv env st"
    and fresh: "TxHash env (desc_Tx txDesc) \<notin>
        set (map (\<lambda>item. TxHash env (item_tx item)) (prioItems st))"
    and m: "mempoolStep env h txDesc st = Inr st'"
  shows "length (prioItems st') \<le> Suc (length (prioItems st))"
proof -
  let ?H = "\<lambda>s. map (\<lambda>item. TxHash env (item_tx item)) (prioItems s)"
  note s = mempoolStep_buildInv[OF inv fresh m]
  from s have "distinct (?H st')" by (simp add: buildInv_def baseInv_def)
  then have "length (prioItems st') = card (set (?H st'))"
    using distinct_card[of "?H st'"] by simp
  also have "\<dots> \<le> card (insert (TxHash env (desc_Tx txDesc)) (set (?H st)))"
    using s by (intro card_mono) simp_all
  also have "\<dots> \<le> Suc (card (set (?H st)))"
    by (simp add: card_insert_if)
  also have "card (set (?H st)) \<le> length (prioItems st)"
    using card_length[of "?H st"] by simp
  finally show ?thesis by simp
qed

lemma mempoolLoop_buildInv:
  assumes "buildInv env st"
    and "distinct (map (\<lambda>d. TxHash env (desc_Tx d)) descs)"
    and "\<forall>d \<in> set descs. TxHash env (desc_Tx d) \<notin>
        set (map (\<lambda>item. TxHash env (item_tx item)) (prioItems st))"
    and "mempoolLoop env h descs st = Inr st'"
  shows "buildInv env st' \<and> length (prioItems st') \<le> length (prioItems st) + length descs"
  using assms
proof (induction descs arbitrary: st)
  case Nil
  then show ?case by simp
next
  case (Cons d descs)
  from Cons.prems(4) obtain st1 where s1: "mempoolStep env h d st = Inr st1"
    and l: "mempoolLoop env h descs st1 = Inr st'"
    by (auto split: sum.splits)
  from Cons.prems(3) have fresh: "TxHash env (desc_Tx d) \<notin>
        set (map (\<lambda>item. TxHash env (item_tx item)) (prioItems st))" by simp
  note s = mempoolStep_buildInv[OF Cons.prems(1) fresh s1]
  note n = mempoolStep_length[OF Cons.prems(1) fresh s1]
  have "TxHash env (desc_Tx d') \<notin>
        set (map (\<lambda>item. TxHash env (item_tx item)) (prioItems st1))"
    if d': "d' \<in> set descs" for d'
  proof
    assume "TxHash env (desc_Tx d') \<in>
        set (map (\<lambda>item. TxHash env (item_tx item)) (prioItems st1))"
    with s have "TxHash env (desc_Tx d') = TxHash env (desc_Tx d) \<or>
        TxHash env (desc_Tx d') \<in> set (map (\<lambda>item. TxHash env (item_tx item)) (prioItems st))"
      by blast
    moreover from Cons.prems(2) d' have "TxHash env (desc_Tx d') \<noteq> TxHash env (desc_Tx d)"
      by (auto simp: image_iff)
    moreover from Cons.prems(3) d' have "TxHash env (desc_Tx d') \<notin>
        set (map (\<lambda>item. TxHash env (item_tx item)) (prioItems st))" by simp
    ultimately show False by blast
  qed
  then have "\<forall>d' \<in> set descs. TxHash env (desc_Tx d') \<notin>
        set (map (\<lambda>item. TxHash env (item_tx item)) (prioItems st1))" by blast
  with s Cons.prems(2) l have "buildInv env st' \<and>
      length (prioItems st') \<le> length (prioItems st1) + length descs"
    by (intro Cons.IH[of st1]) simp_all
  with n show ?case by simp
qed

text \<open>Queued items and waiting items are different items.\<close>

lemma sum_list_waiting:
  "sum_list (map waiting xs) = length (filter (\<lambda>x. waiting x \<noteq> 0) xs)"
  by (induction xs) (simp_all add: waiting_def)

lemma queued_waiting_le:
  assumes "baseInv env st"
  shows "length (items (priorityQueue st)) + sum_list (map waiting (prioItems st))
     \<le> length (prioItems st)"
proof -
  let ?xs = "prioItems st"
  from assms have q: "\<forall>a \<in> set (items (priorityQueue st)).
      a < length ?xs \<and> pendingDeps (?xs ! a) = {}"
    and dq: "distinct (items (priorityQueue st))"
    by (simp_all add: baseInv_def queueInv_def)
  have "length (items (priorityQueue st)) = card (set (items (priorityQueue st)))"
    using distinct_card[OF dq] by simp
  also have "\<dots> \<le> card {i. i < length ?xs \<and> waiting (?xs ! i) = 0}"
    using q by (intro card_mono) (auto simp: waiting_def)
  also have "\<dots> = length (filter (\<lambda>x. waiting x = 0) ?xs)"
    by (simp add: length_filter_conv_card)
  finally have "length (items (priorityQueue st)) \<le> length (filter (\<lambda>x. waiting x = 0) ?xs)" .
  moreover have "length (filter (\<lambda>x. waiting x = 0) ?xs) +
      length (filter (\<lambda>x. waiting x \<noteq> 0) ?xs) = length ?xs"
    using sum_length_filter_compl[of "\<lambda>x. waiting x = 0" ?xs] by simp
  ultimately show ?thesis by (simp add: sum_list_waiting)
qed

lemma initialLocals_buildInv: "buildInv env (initialLocals env policy cb)"
  by (simp add: buildInv_def baseInv_def queueInv_def initialLocals_def Let_def
      items_newTxPriorityQueue dependersOf_def)

lemma buildInv_termInv: "buildInv env st \<Longrightarrow> termInv env st"
  by (auto simp: buildInv_def termInv_def)


subsection \<open>The choosing loop ends\<close>

lemma releaseDep_prioItems:
  "prioItems (releaseDep h a st) =
     (prioItems st)[a := (prioItems st ! a)
        \<lparr>item_dependsOn := map_option (removeAll h) (item_dependsOn (prioItems st ! a))\<rparr>]"
  by (simp add: releaseDep_def Let_def)

lemma releaseDep_queue_mset:
  "mset (items (priorityQueue (releaseDep h a st))) =
     (if pendingDeps (prioItems st ! a) \<subseteq> {h}
      then add_mset a (mset (items (priorityQueue st)))
      else mset (items (priorityQueue st)))"
  by (auto simp: releaseDep_def Let_def mset_items_pq_heapPush pendingDeps_def
      removeAll_eq_Nil_iff split: option.splits)

lemma releaseDep_sortedByFee: "sortedByFee (releaseDep h a st) = sortedByFee st"
  by (simp add: releaseDep_def Let_def)

lemma releaseDep_itemHash:
  "a < length (prioItems st) \<Longrightarrow> itemHash env (releaseDep h a st) b = itemHash env st b"
  by (cases "b = a") (simp_all add: itemHash_def releaseDep_fields)

lemma releaseDep_passesLeft:
  assumes b: "b < length (prioItems st)" and hb: "h \<in> pendingDeps (prioItems st ! b)"
  shows "passesLeft (releaseDep h b st) = passesLeft st"
proof -
  let ?item = "(prioItems st ! b)
        \<lparr>item_dependsOn := map_option (removeAll h) (item_dependsOn (prioItems st ! b))\<rparr>"
  have pd: "pendingDeps ?item = pendingDeps (prioItems st ! b) - {h}"
    by (auto simp: pendingDeps_def split: option.splits)
  have w: "waiting (prioItems st ! b) = 1" using hb by (auto simp: waiting_def)
  have w': "waiting ?item = (if pendingDeps (prioItems st ! b) \<subseteq> {h} then 0 else 1)"
    unfolding waiting_def pd by auto
  have "sum_list (map waiting (prioItems (releaseDep h b st))) =
      sum_list ((map waiting (prioItems st))[b := waiting ?item])"
    by (simp add: releaseDep_prioItems map_update)
  also have "\<dots> = sum_list (map waiting (prioItems st)) + waiting ?item - waiting (prioItems st ! b)"
    using b by (simp add: sum_list_update)
  finally have s: "sum_list (map waiting (prioItems (releaseDep h b st))) =
      sum_list (map waiting (prioItems st)) + waiting ?item - 1"
    using w by simp
  have "waiting (prioItems st ! b) \<le> sum_list (map waiting (prioItems st))"
    using elem_le_sum_list[of b "map waiting (prioItems st)"] b by simp
  with w have pos: "1 \<le> sum_list (map waiting (prioItems st))" by simp
  have l: "length (items (priorityQueue (releaseDep h b st))) =
      (if pendingDeps (prioItems st ! b) \<subseteq> {h}
       then Suc (length (items (priorityQueue st))) else length (items (priorityQueue st)))"
    using arg_cong[where f = size, OF releaseDep_queue_mset[of h b st]]
    by (simp split: if_splits)
  show ?thesis
    unfolding passesLeft_def releaseDep_sortedByFee s l w' using pos by simp
qed

lemma releaseDep_term:
  assumes inv: "termInv env st" and ret: "retired env st h"
    and b: "b < length (prioItems st)" and hb: "h \<in> pendingDeps (prioItems st ! b)"
  shows "termInv env (releaseDep h b st)" and "retired env (releaseDep h b st) h"
proof -
  let ?s = "releaseDep h b st"
  note f = releaseDep_fields[where h=h and a=b and st=st]
  from inv have q: "queueInv st" and dq: "distinct (items (priorityQueue st))"
    and dh: "distinct (map (\<lambda>item. TxHash env (item_tx item)) (prioItems st))"
    and dk: "\<And>h. distinct (map fst (dependersOf st h))"
    and key: "\<And>h d. d \<in> set (dependersOf st h) \<Longrightarrow> fst d = itemHash env st (snd d)"
    and pen: "\<And>h d. d \<in> set (dependersOf st h) \<Longrightarrow>
        h \<in> pendingDeps (prioItems st ! snd d) \<or> retired env st h"
    unfolding termInv_def baseInv_def by blast+
  have dep: "dependersOf ?s = dependersOf st" by (rule dependersOf_cong[OF f(5)])
  have ih: "itemHash env ?s x = itemHash env st x" for x by (rule releaseDep_itemHash[OF b])
  have pd: "pendingDeps (prioItems ?s ! x) =
      (if x = b then pendingDeps (prioItems st ! x) - {h} else pendingDeps (prioItems st ! x))" for x
    using f(2)[of x] f(4) b by (cases "x = b") simp_all
  have nq: "b \<notin> set (items (priorityQueue st))"
    using q hb unfolding queueInv_def by auto
  have qs: "set (items (priorityQueue ?s)) =
      (if pendingDeps (prioItems st ! b) \<subseteq> {h}
       then insert b (set (items (priorityQueue st))) else set (items (priorityQueue st)))"
    using arg_cong[where f = set_mset, OF releaseDep_queue_mset[of h b st]]
    by (simp split: if_splits)
  have "x < length (prioItems ?s) \<and> pendingDeps (prioItems ?s ! x) = {}"
    if "x \<in> set (items (priorityQueue ?s))" for x
  proof (cases "x \<in> set (items (priorityQueue st))")
    case True
    with q show ?thesis unfolding queueInv_def f(1) pd by auto
  next
    case False
    with that have "x = b" "pendingDeps (prioItems st ! b) \<subseteq> {h}"
      unfolding qs by (auto split: if_splits)
    then show ?thesis using b unfolding f(1) pd by auto
  qed
  moreover have "snd d < length (prioItems ?s)" if "d \<in> set (dependersOf ?s hh)" for d hh
    using that q unfolding queueInv_def f(1) dep by blast
  ultimately have 1: "queueInv ?s" unfolding queueInv_def by blast
  have "distinct (b # items (priorityQueue st))" using dq nq by simp
  then have 2: "distinct (items (priorityQueue ?s))"
    using releaseDep_queue_mset[of h b st] dq
    by (cases "pendingDeps (prioItems st ! b) \<subseteq> {h}")
      (metis mset.simps(2) mset_eq_imp_distinct_iff, metis mset_eq_imp_distinct_iff)
  have "map (\<lambda>item. TxHash env (item_tx item)) (prioItems ?s) =
      map (\<lambda>item. TxHash env (item_tx item)) (prioItems st)"
    using ih by (simp add: list_eq_iff_nth_eq f(1) itemHash_def)
  with dh have 3: "distinct (map (\<lambda>item. TxHash env (item_tx item)) (prioItems ?s))" by simp
  have 4: "distinct (map fst (dependersOf ?s hh))" for hh
    using dk by (simp add: dep)
  have 5: "fst d = itemHash env ?s (snd d)" if "d \<in> set (dependersOf ?s hh)" for d hh
    using that key[of d hh] unfolding dep ih by simp
  have keep: "retired env ?s hh" if r: "retired env st hh" for hh
    unfolding retired_def
  proof (intro allI impI)
    fix x assume x: "x < length (prioItems ?s)" and e: "itemHash env ?s x = hh"
    from r x e have old: "x \<notin> set (items (priorityQueue st))" "pendingDeps (prioItems st ! x) = {}"
      unfolding retired_def f(1) ih by auto
    with hb have "x \<noteq> b" by auto
    with old show "x \<notin> set (items (priorityQueue ?s)) \<and> pendingDeps (prioItems ?s ! x) = {}"
      unfolding qs pd by auto
  qed
  from keep[OF ret] show "retired env ?s h" .
  have 6: "hh \<in> pendingDeps (prioItems ?s ! snd d) \<or> retired env ?s hh"
    if "d \<in> set (dependersOf ?s hh)" for d hh
  proof (cases "hh = h")
    case True
    with keep[OF ret] show ?thesis by simp
  next
    case False
    from that pen[of d hh] have "hh \<in> pendingDeps (prioItems st ! snd d) \<or> retired env st hh"
      unfolding dep by simp
    then show ?thesis using False keep[of hh] unfolding pd by auto
  qed
  show "termInv env ?s" unfolding termInv_def baseInv_def using 1 2 3 4 5 6 by blast
qed

lemma promoteDeps_term:
  assumes "termInv env st" and "retired env st h" and "distinct (map snd ds)"
    and "\<forall>d \<in> set ds. snd d < length (prioItems st) \<and> h \<in> pendingDeps (prioItems st ! snd d)"
  shows "termInv env (promoteDeps h ds st) \<and> passesLeft (promoteDeps h ds st) = passesLeft st"
  using assms
proof (induction ds arbitrary: st)
  case Nil
  then show ?case by simp
next
  case (Cons d ds)
  from Cons.prems(4) have b: "snd d < length (prioItems st)"
    and hb: "h \<in> pendingDeps (prioItems st ! snd d)" by simp_all
  let ?s = "releaseDep h (snd d) st"
  note r = releaseDep_term[OF Cons.prems(1,2) b hb]
  have rest: "\<forall>d' \<in> set ds. snd d' < length (prioItems ?s) \<and>
      h \<in> pendingDeps (prioItems ?s ! snd d')"
  proof
    fix d' assume d': "d' \<in> set ds"
    with Cons.prems(3) have "snd d' \<noteq> snd d" by (auto simp: image_iff)
    with d' Cons.prems(4) show "snd d' < length (prioItems ?s) \<and>
        h \<in> pendingDeps (prioItems ?s ! snd d')"
      by (simp add: releaseDep_fields)
  qed
  from Cons.prems(3) have "distinct (map snd ds)" by simp
  from Cons.IH[OF r this rest] releaseDep_passesLeft[OF b hb]
  show ?case by (simp add: promoteDeps_Cons)
qed


lemma termInv_requeue:
  assumes inv: "termInv env st" and m: "mset (items pq) = mset (items (priorityQueue st))"
  shows "termInv env (st\<lparr>priorityQueue := pq, sortedByFee := b\<rparr>)"
proof -
  let ?s = "st\<lparr>priorityQueue := pq, sortedByFee := b\<rparr>"
  from m have se: "set (items pq) = set (items (priorityQueue st))" by (rule mset_eq_setD)
  from m have di: "distinct (items pq) = distinct (items (priorityQueue st))"
    by (rule mset_eq_imp_distinct_iff)
  have dep: "dependersOf ?s = dependersOf st" by (auto simp: dependersOf_def)
  have ih: "itemHash env ?s = itemHash env st" by (auto simp: itemHash_def)
  have re: "retired env ?s = retired env st" by (auto simp: retired_def ih se)
  show ?thesis
    using inv unfolding termInv_def baseInv_def queueInv_def dep ih re
    by (simp add: se di)
qed

lemma pop_term:
  assumes inv: "termInv env st" and ne: "items (priorityQueue st) \<noteq> []"
    and m: "add_mset (hd (items (priorityQueue st))) (mset (items pq)) =
        mset (items (priorityQueue st))"
  shows "termInv env (st\<lparr>priorityQueue := pq, sortedByFee := b\<rparr>)"
    and "hd (items (priorityQueue st)) < length (prioItems st)"
    and "retired env (st\<lparr>priorityQueue := pq, sortedByFee := b\<rparr>)
           (itemHash env st (hd (items (priorityQueue st))))"
    and "\<forall>d \<in> set (dependersOf st (itemHash env st (hd (items (priorityQueue st))))).
           snd d < length (prioItems st) \<and>
           itemHash env st (hd (items (priorityQueue st))) \<in> pendingDeps (prioItems st ! snd d)"
    and "Suc (length (items pq)) = length (items (priorityQueue st))"
proof -
  let ?a = "hd (items (priorityQueue st))"
  let ?s = "st\<lparr>priorityQueue := pq, sortedByFee := b\<rparr>"
  from inv have q: "queueInv st" and dq: "distinct (items (priorityQueue st))"
    and dh: "distinct (map (\<lambda>item. TxHash env (item_tx item)) (prioItems st))"
    and dk: "\<And>h. distinct (map fst (dependersOf st h))"
    and key: "\<And>h d. d \<in> set (dependersOf st h) \<Longrightarrow> fst d = itemHash env st (snd d)"
    and pen: "\<And>h d. d \<in> set (dependersOf st h) \<Longrightarrow>
        h \<in> pendingDeps (prioItems st ! snd d) \<or> retired env st h"
    unfolding termInv_def baseInv_def by blast+
  from m have m': "mset (?a # items pq) = mset (items (priorityQueue st))" by simp
  from mset_eq_setD[OF m'] have se: "insert ?a (set (items pq)) = set (items (priorityQueue st))"
    by simp
  from mset_eq_imp_distinct_iff[OF m'] dq have da: "?a \<notin> set (items pq)" "distinct (items pq)"
    by simp_all
  from mset_eq_length[OF m'] show "Suc (length (items pq)) = length (items (priorityQueue st))"
    by simp
  from ne have aq: "?a \<in> set (items (priorityQueue st))" by simp
  with q have a: "?a < length (prioItems st)" and pa: "pendingDeps (prioItems st ! ?a) = {}"
    unfolding queueInv_def by auto
  show "?a < length (prioItems st)" by (rule a)
  have dep: "dependersOf ?s = dependersOf st" by (auto simp: dependersOf_def)
  have ih: "itemHash env ?s = itemHash env st" by (auto simp: itemHash_def)
  have keep: "retired env ?s hh" if "retired env st hh" for hh
    using that se unfolding retired_def ih by auto
  have "queueInv ?s"
    using q se unfolding queueInv_def dep by auto
  moreover have "hh \<in> pendingDeps (prioItems ?s ! snd d) \<or> retired env ?s hh"
    if "d \<in> set (dependersOf ?s hh)" for d hh
    using that pen[of d hh] keep[of hh] unfolding dep by auto
  ultimately show "termInv env ?s"
    unfolding termInv_def baseInv_def using da(2) dh dk key unfolding dep ih by simp
  show "retired env ?s (itemHash env st ?a)"
    unfolding retired_def ih
  proof (intro allI impI)
    fix x assume x: "x < length (prioItems ?s)" and e: "itemHash env st x = itemHash env st ?a"
    from x have x': "x < length (map (\<lambda>item. TxHash env (item_tx item)) (prioItems st))" by simp
    from a have a': "?a < length (map (\<lambda>item. TxHash env (item_tx item)) (prioItems st))" by simp
    from e x a have "map (\<lambda>item. TxHash env (item_tx item)) (prioItems st) ! x =
        map (\<lambda>item. TxHash env (item_tx item)) (prioItems st) ! ?a"
      by (simp add: itemHash_def)
    with nth_eq_iff_index_eq[OF dh x' a'] have "x = ?a" by simp
    with da(1) pa show "x \<notin> set (items (priorityQueue ?s)) \<and> pendingDeps (prioItems ?s ! x) = {}"
      by simp
  qed
  have nr: "\<not> retired env st (itemHash env st ?a)"
    using a aq unfolding retired_def by blast
  show "\<forall>d \<in> set (dependersOf st (itemHash env st ?a)).
           snd d < length (prioItems st) \<and>
           itemHash env st ?a \<in> pendingDeps (prioItems st ! snd d)"
  proof
    fix d assume d: "d \<in> set (dependersOf st (itemHash env st ?a))"
    from pen[OF d] nr have "itemHash env st ?a \<in> pendingDeps (prioItems st ! snd d)" by blast
    moreover from q d have "snd d < length (prioItems st)" unfolding queueInv_def by blast
    ultimately show "snd d < length (prioItems st) \<and>
           itemHash env st ?a \<in> pendingDeps (prioItems st ! snd d)" by simp
  qed
qed

lemma addToBlock_term:
  assumes inv: "termInv env st" and a: "a < length (prioItems st)"
    and ret: "retired env st (itemHash env st a)"
    and deps: "\<forall>d \<in> set (dependersOf st (itemHash env st a)).
        snd d < length (prioItems st) \<and> itemHash env st a \<in> pendingDeps (prioItems st ! snd d)"
    and r: "\<forall>al. mset (rangeOrder env al) = mset al"
  shows "termInv env (addToBlock env hh a n st) \<and>
     passesLeft (addToBlock env hh a n st) = passesLeft st"
proof -
  let ?tx = "item_tx (prioItems st ! a)"
  let ?h = "itemHash env st a"
  let ?deps = "dependersOf st ?h"
  let ?st1 = "st\<lparr>blockUtxos := spendTransaction env (blockUtxos st) ?tx hh,
               blockTxns := blockTxns st @ [?tx],
               blockSize := blockSize st + word_of_int (SerializeSize env ?tx),
               blockSigOps := blockSigOps st + n,
               totalFees := totalFees st + item_fee (prioItems st ! a),
               txFees := txFees st @ [item_fee (prioItems st ! a)],
               txSigOpCounts := txSigOpCounts st @ [n]\<rparr>"
  have eq: "addToBlock env hh a n st = promoteDeps ?h (rangeOrder env ?deps) ?st1"
    by (simp add: addToBlock_def Let_def itemHash_def dependersOf_def)
  have dep: "dependersOf ?st1 = dependersOf st" by (auto simp: dependersOf_def)
  have ih: "itemHash env ?st1 = itemHash env st" by (auto simp: itemHash_def)
  have re: "retired env ?st1 = retired env st" by (auto simp: retired_def ih)
  have i1: "termInv env ?st1"
    using inv unfolding termInv_def baseInv_def queueInv_def dep ih re by simp
  have r1: "retired env ?st1 ?h" using ret by (simp add: re)
  have p1: "passesLeft ?st1 = passesLeft st" by (simp add: passesLeft_def)
  from inv have dk: "distinct (map fst ?deps)"
    and key: "\<And>d. d \<in> set ?deps \<Longrightarrow> fst d = itemHash env st (snd d)"
    unfolding termInv_def baseInv_def by blast+
  from r have ms: "mset (rangeOrder env ?deps) = mset ?deps" by simp
  from mset_eq_setD[OF ms] have se: "set (rangeOrder env ?deps) = set ?deps" .
  from dk have dd: "distinct ?deps" and inj: "inj_on fst (set ?deps)"
    by (simp_all add: distinct_map)
  have "inj_on snd (set ?deps)"
  proof (rule inj_onI)
    fix x y assume x: "x \<in> set ?deps" and y: "y \<in> set ?deps" and e: "snd x = snd y"
    from key[OF x] key[OF y] e have "fst x = fst y" by simp
    with inj x y show "x = y" by (auto dest: inj_onD)
  qed
  moreover from mset_eq_imp_distinct_iff[OF ms] dd have "distinct (rangeOrder env ?deps)" by simp
  ultimately have ds: "distinct (map snd (rangeOrder env ?deps))"
    by (simp add: distinct_map se)
  have rng: "\<forall>d \<in> set (rangeOrder env ?deps).
      snd d < length (prioItems ?st1) \<and> ?h \<in> pendingDeps (prioItems ?st1 ! snd d)"
    using deps unfolding se by simp
  from promoteDeps_term[OF i1 r1 ds rng] p1 show ?thesis unfolding eq by simp
qed

lemma assemblyStep_term:
  assumes inv: "termInv env st"
    and r: "\<forall>al. mset (rangeOrder env al) = mset al"
    and ne: "items (priorityQueue st) \<noteq> []"
  shows "termInv env (assemblyStep env policy h st) \<and>
     passesLeft (assemblyStep env policy h st) < passesLeft st"
  using ne
proof (cases rule: assemblyStep_cases[where env=env and policy=policy and h=h])
  case (skip pq b)
  note p = pop_term[OF inv ne skip(2)]
  have "passesLeft (st\<lparr>priorityQueue := pq, sortedByFee := b\<rparr>) < passesLeft st"
    using p(5) skip(3) by (auto simp: passesLeft_def)
  with p(1) show ?thesis unfolding skip(1) by simp
next
  case (requeue pq)
  have "passesLeft (st\<lparr>priorityQueue := pq, sortedByFee := True\<rparr>) < passesLeft st"
    using mset_eq_length[OF requeue(2)] requeue(3) by (simp add: passesLeft_def)
  with termInv_requeue[OF inv requeue(2), of True] show ?thesis unfolding requeue(1) by simp
next
  case (accept pq b n)
  let ?a = "hd (items (priorityQueue st))"
  let ?s = "st\<lparr>priorityQueue := pq, sortedByFee := b\<rparr>"
  note p = pop_term[OF inv ne accept(2)]
  have ih: "itemHash env ?s = itemHash env st" by (auto simp: itemHash_def)
  have dep: "dependersOf ?s = dependersOf st" by (auto simp: dependersOf_def)
  have a: "?a < length (prioItems ?s)" using p(2) by simp
  have ret: "retired env ?s (itemHash env ?s ?a)" using p(3) by (simp add: ih)
  have deps: "\<forall>d \<in> set (dependersOf ?s (itemHash env ?s ?a)).
        snd d < length (prioItems ?s) \<and> itemHash env ?s ?a \<in> pendingDeps (prioItems ?s ! snd d)"
    using p(4) unfolding ih dep by simp
  have "passesLeft ?s < passesLeft st"
    using p(5) accept(3) by (auto simp: passesLeft_def)
  with addToBlock_term[OF p(1) a ret deps r, of h n] show ?thesis unfolding accept(1) by simp
qed

lemma assemblyStep_sortedByFee:
  assumes "items (priorityQueue st) \<noteq> []" and "sortedByFee st"
  shows "sortedByFee (assemblyStep env policy h st)"
  using assms(1)
proof (cases rule: assemblyStep_cases[where env=env and policy=policy and h=h])
  case (skip pq b)
  with assms(2) show ?thesis by simp
next
  case (requeue pq)
  then show ?thesis by simp
next
  case (accept pq b n)
  with assms(2) show ?thesis by (simp add: addToBlock_fields)
qed

text \<open>
  The loop ends after at most \<open>passesLeft\<close> passes; every pass starts with an item in
  the queue, and the invariant holds before and after every pass.
\<close>

lemma assemblyLoop_terminates:
  assumes "termInv env st" and r: "\<forall>al. mset (rangeOrder env al) = mset al"
  shows "\<exists>n \<le> passesLeft st.
     assemblyLoop env policy h st = Some ((assemblyStep env policy h ^^ n) st) \<and>
     (\<forall>k < n. items (priorityQueue ((assemblyStep env policy h ^^ k) st)) \<noteq> []) \<and>
     (\<forall>k \<le> n. termInv env ((assemblyStep env policy h ^^ k) st)) \<and>
     items (priorityQueue ((assemblyStep env policy h ^^ n) st)) = []"
  using assms(1)
proof (induction "passesLeft st" arbitrary: st rule: less_induct)
  case less
  show ?case
  proof (cases "items (priorityQueue st) = []")
    case True
    then have "assemblyLoop env policy h st = Some ((assemblyStep env policy h ^^ 0) st)"
      by (simp add: assemblyLoop.simps)
    with True less.prems show ?thesis by (intro exI[of _ 0]) simp
  next
    case False
    let ?f = "assemblyStep env policy h"
    let ?s = "?f st"
    from assemblyStep_term[OF less.prems r False, of policy h]
    have i: "termInv env ?s" and m: "passesLeft ?s < passesLeft st" by simp_all
    from less.hyps[OF m i] obtain n where n: "n \<le> passesLeft ?s"
      and run: "assemblyLoop env policy h ?s = Some ((?f ^^ n) ?s)"
      and ne: "\<forall>k < n. items (priorityQueue ((?f ^^ k) ?s)) \<noteq> []"
      and inv: "\<forall>k \<le> n. termInv env ((?f ^^ k) ?s)"
      and emp: "items (priorityQueue ((?f ^^ n) ?s)) = []"
      by blast
    have sh: "(?f ^^ Suc k) st = (?f ^^ k) ?s" for k by (simp add: funpow_swap1)
    from False run have 1: "assemblyLoop env policy h st = Some ((?f ^^ Suc n) st)"
      by (subst assemblyLoop.simps) (simp add: funpow_swap1)
    have 2: "items (priorityQueue ((?f ^^ k) st)) \<noteq> []" if "k < Suc n" for k
    proof (cases k)
      case 0
      with False show ?thesis by simp
    next
      case (Suc k')
      with that ne show ?thesis unfolding Suc sh by simp
    qed
    have 3: "termInv env ((?f ^^ k) st)" if "k \<le> Suc n" for k
    proof (cases k)
      case 0
      with less.prems show ?thesis by simp
    next
      case (Suc k')
      with that inv show ?thesis unfolding Suc sh by simp
    qed
    have 4: "items (priorityQueue ((?f ^^ Suc n) st)) = []" using emp unfolding sh .
    from n m have "Suc n \<le> passesLeft st" by simp
    with 1 2 3 4 show ?thesis by (intro exI[of _ "Suc n"]) blast
  qed
qed

text \<open>
  After the first loop the second makes at most one pass for every transaction of the
  pool, and one more when it starts in the order by priority.
\<close>

lemma assemblyLoop_passes:
  assumes d: "distinct (map (\<lambda>d. TxHash env (desc_Tx d)) (MiningDescs env))"
    and r: "\<forall>al. mset (rangeOrder env al) = mset al"
    and m: "mempoolLoop env h (MiningDescs env) (initialLocals env policy cb) = Inr st"
  shows "\<exists>n. n \<le> length (MiningDescs env) + (if BlockPrioritySize policy = 0 then 0 else 1) \<and>
     assemblyLoop env policy h st = Some ((assemblyStep env policy h ^^ n) st) \<and>
     (\<forall>k < n. items (priorityQueue ((assemblyStep env policy h ^^ k) st)) \<noteq> []) \<and>
     (\<forall>k \<le> n. distinct (items (priorityQueue ((assemblyStep env policy h ^^ k) st)))) \<and>
     (\<forall>k < n. sortedByFee ((assemblyStep env policy h ^^ k) st) \<longrightarrow>
        sortedByFee ((assemblyStep env policy h ^^ Suc k) st)) \<and>
     items (priorityQueue ((assemblyStep env policy h ^^ n) st)) = []"
proof -
  let ?f = "assemblyStep env policy h"
  have "\<forall>d \<in> set (MiningDescs env). TxHash env (desc_Tx d) \<notin>
      set (map (\<lambda>item. TxHash env (item_tx item)) (prioItems (initialLocals env policy cb)))"
    by (simp add: initialLocals_def Let_def)
  from mempoolLoop_buildInv[OF initialLocals_buildInv d this m]
  have b: "buildInv env st" and l: "length (prioItems st) \<le> length (MiningDescs env)"
    by (simp_all add: initialLocals_def Let_def)
  from mempoolLoop_frame[OF m] have sf: "sortedByFee st = (BlockPrioritySize policy = 0)"
    by (simp add: initialLocals_def Let_def)
  from b have "baseInv env st" by (simp add: buildInv_def)
  from queued_waiting_le[OF this] l sf
  have le: "passesLeft st \<le>
      length (MiningDescs env) + (if BlockPrioritySize policy = 0 then 0 else 1)"
    by (simp add: passesLeft_def)
  from assemblyLoop_terminates[OF buildInv_termInv[OF b] r, of policy h]
  obtain n where n: "n \<le> passesLeft st"
    and run: "assemblyLoop env policy h st = Some ((?f ^^ n) st)"
    and ne: "\<forall>k < n. items (priorityQueue ((?f ^^ k) st)) \<noteq> []"
    and inv: "\<forall>k \<le> n. termInv env ((?f ^^ k) st)"
    and emp: "items (priorityQueue ((?f ^^ n) st)) = []"
    by blast
  from inv have di: "\<forall>k \<le> n. distinct (items (priorityQueue ((?f ^^ k) st)))"
    by (simp add: termInv_def baseInv_def)
  have so: "\<forall>k < n. sortedByFee ((?f ^^ k) st) \<longrightarrow> sortedByFee ((?f ^^ Suc k) st)"
    using ne assemblyStep_sortedByFee[of _ env policy h] by simp
  from n le have "n \<le> length (MiningDescs env) + (if BlockPrioritySize policy = 0 then 0 else 1)"
    by simp
  with run ne di so emp show ?thesis by blast
qed

text \<open>
  Without a word on the hashes: when no transaction has the size zero, every added
  transaction makes \<open>blockSize\<close> larger, and a pass that adds none makes the queue
  shorter or turns \<open>sortedByFee\<close> true.
\<close>

lemma assemblyStep_by_size:
  assumes sz: "\<forall>tx. (word_of_int (SerializeSize env tx) :: uint32) \<noteq> 0"
    and ne: "items (priorityQueue st) \<noteq> []"
  shows "(assemblyStep env policy h st, st) \<in>
     measures [\<lambda>s. 2 ^ 32 - unat (blockSize s),
               \<lambda>s. length (items (priorityQueue s)) + (if sortedByFee s then 0 else 1)]"
  using ne
proof (cases rule: assemblyStep_cases[where env=env and policy=policy and h=h])
  case (skip pq b)
  from mset_eq_length[of "hd (items (priorityQueue st)) # items pq" "items (priorityQueue st)"]
    skip(2)
  have "Suc (length (items pq)) = length (items (priorityQueue st))" by simp
  with skip(3) show ?thesis unfolding skip(1) by auto
next
  case (requeue pq)
  from mset_eq_length[OF requeue(2)] requeue(3) show ?thesis unfolding requeue(1) by simp
next
  case (accept pq b n)
  let ?w = "word_of_int (SerializeSize env (item_tx (prioItems st ! hd (items (priorityQueue st))))) :: uint32"
  from sz have "?w \<noteq> 0" by blast
  with accept(4) have "blockSize st < blockSize st + ?w"
    by (simp add: order_less_le)
  then have "unat (blockSize st) < unat (blockSize st + ?w)"
    by (simp add: word_less_nat_alt)
  moreover have "unat (blockSize st + ?w) < 2 ^ 32"
    using unsigned_less[of "blockSize st + ?w", where ?'a = nat] by simp
  ultimately have "(2::nat) ^ 32 - unat (blockSize st + ?w) < 2 ^ 32 - unat (blockSize st)"
    by simp
  then show ?thesis unfolding accept(1) by (simp add: addToBlock_fields)
qed

lemma assemblyLoop_terminates_by_size:
  assumes sz: "\<forall>tx. (word_of_int (SerializeSize env tx) :: uint32) \<noteq> 0"
  shows "\<exists>st'. assemblyLoop env policy h st = Some st'"
proof (induction st rule: wf_induct_rule[OF wf_measures[of
      "[\<lambda>s. 2 ^ 32 - unat (blockSize s),
        \<lambda>s. length (items (priorityQueue s)) + (if sortedByFee s then 0 else 1)]"]])
  case (1 st)
  show ?case
  proof (cases "items (priorityQueue st) = []")
    case True
    then show ?thesis by (simp add: assemblyLoop.simps)
  next
    case False
    from 1[OF assemblyStep_by_size[OF sz False, of policy h]] False
    show ?thesis by (subst assemblyLoop.simps) simp
  qed
qed

lemma selectTransactions_terminates:
  assumes "\<And>cb st.
      mempoolLoop env (best_Height (BestSnapshot env) + 1) (MiningDescs env)
        (initialLocals env policy cb) = Inr st \<Longrightarrow>
      \<exists>st'. assemblyLoop env policy (best_Height (BestSnapshot env) + 1) st = Some st'"
  shows "\<exists>res. selectTransactions env policy addr = Some res"
proof -
  let ?h = "best_Height (BestSnapshot env) + 1"
  have "\<exists>res. (case assemblyLoop env policy ?h st of None \<Rightarrow> None | Some st \<Rightarrow> Some (Inr st)) =
      Some (res :: error + 'a Locals)"
    if "mempoolLoop env ?h (MiningDescs env) (initialLocals env policy cb) = Inr st" for cb st
    using assms[OF that] by auto
  then show ?thesis
    by (auto simp: selectTransactions_def Let_def split: sum.splits)
qed

text \<open>
  C9. \<open>NewBlockTemplate\<close> returns, with a template or an error, for every source pool
  (a list, so finite), when no transaction has the size zero (as \<open>uint32\<close>), or when
  the transactions of the pool have pairwise different hashes and \<open>range\<close> visits
  every entry of a map once. In the second case, from the state \<open>st\<close> that the first
  loop leaves, the loop that chooses the transactions makes \<open>n\<close> passes, each of which
  starts with an item in the queue and pops it, and then the queue is empty. \<open>n\<close> is at
  most the number of transactions of the pool, and one more when the loop starts in the
  order by priority: an item is pushed once, by the first loop when it waits for no
  parent or by lines 767 to 770 when its last parent is added, and the popped item is
  pushed back at most once, on the pass where \<open>sortedByFee\<close> becomes true, which it then
  stays. At no time is an item in the queue twice.
\<close>

theorem NewBlockTemplate_terminates:
  assumes "(\<forall>tx. (word_of_int (SerializeSize env tx) :: uint32) \<noteq> 0) \<or>
      distinct (map (\<lambda>d. TxHash env (desc_Tx d)) (MiningDescs env)) \<and>
      (\<forall>al. mset (rangeOrder env al) = mset al)"
  shows "(\<exists>res. NewBlockTemplate env policy payToAddress validateKey = Some res) \<and>
    (distinct (map (\<lambda>d. TxHash env (desc_Tx d)) (MiningDescs env)) \<and>
     (\<forall>al. mset (rangeOrder env al) = mset al) \<longrightarrow>
     (\<forall>cb st.
       mempoolLoop env (best_Height (BestSnapshot env) + 1) (MiningDescs env)
         (initialLocals env policy cb) = Inr st \<longrightarrow>
       (\<exists>n. n \<le> length (MiningDescs env) + (if BlockPrioritySize policy = 0 then 0 else 1) \<and>
          assemblyLoop env policy (best_Height (BestSnapshot env) + 1) st =
            Some ((assemblyStep env policy (best_Height (BestSnapshot env) + 1) ^^ n) st) \<and>
          (\<forall>k < n. items (priorityQueue
             ((assemblyStep env policy (best_Height (BestSnapshot env) + 1) ^^ k) st)) \<noteq> []) \<and>
          (\<forall>k \<le> n. distinct (items (priorityQueue
             ((assemblyStep env policy (best_Height (BestSnapshot env) + 1) ^^ k) st)))) \<and>
          (\<forall>k < n.
             sortedByFee ((assemblyStep env policy (best_Height (BestSnapshot env) + 1) ^^ k) st)
             \<longrightarrow>
             sortedByFee
               ((assemblyStep env policy (best_Height (BestSnapshot env) + 1) ^^ Suc k) st)) \<and>
          items (priorityQueue
            ((assemblyStep env policy (best_Height (BestSnapshot env) + 1) ^^ n) st)) = [])))"
proof -
  let ?h = "best_Height (BestSnapshot env) + 1"
  have loop: "\<exists>st'. assemblyLoop env policy ?h st = Some st'"
    if m: "mempoolLoop env ?h (MiningDescs env) (initialLocals env policy cb) = Inr st" for cb st
    using assms
  proof
    assume "\<forall>tx. (word_of_int (SerializeSize env tx) :: uint32) \<noteq> 0"
    then show ?thesis by (rule assemblyLoop_terminates_by_size)
  next
    assume "distinct (map (\<lambda>d. TxHash env (desc_Tx d)) (MiningDescs env)) \<and>
      (\<forall>al. mset (rangeOrder env al) = mset al)"
    then have d: "distinct (map (\<lambda>d. TxHash env (desc_Tx d)) (MiningDescs env))"
      and r: "\<forall>al. mset (rangeOrder env al) = mset al" by simp_all
    from assemblyLoop_passes[OF d r m] show ?thesis by blast
  qed
  have "\<exists>res. selectTransactions env policy payToAddress = Some res"
    by (rule selectTransactions_terminates) (rule loop)
  then obtain res where "selectTransactions env policy payToAddress = Some res" by blast
  then have 1: "\<exists>res. NewBlockTemplate env policy payToAddress validateKey = Some res"
    by (cases res) (simp_all add: NewBlockTemplate_def)
  have 2: "\<exists>n. n \<le> length (MiningDescs env) + (if BlockPrioritySize policy = 0 then 0 else 1) \<and>
          assemblyLoop env policy ?h st = Some ((assemblyStep env policy ?h ^^ n) st) \<and>
          (\<forall>k < n. items (priorityQueue ((assemblyStep env policy ?h ^^ k) st)) \<noteq> []) \<and>
          (\<forall>k \<le> n. distinct (items (priorityQueue ((assemblyStep env policy ?h ^^ k) st)))) \<and>
          (\<forall>k < n. sortedByFee ((assemblyStep env policy ?h ^^ k) st) \<longrightarrow>
             sortedByFee ((assemblyStep env policy ?h ^^ Suc k) st)) \<and>
          items (priorityQueue ((assemblyStep env policy ?h ^^ n) st)) = []"
    if "distinct (map (\<lambda>d. TxHash env (desc_Tx d)) (MiningDescs env))"
      and "\<forall>al. mset (rangeOrder env al) = mset al"
      and "mempoolLoop env ?h (MiningDescs env) (initialLocals env policy cb) = Inr st"
    for cb st
    using that by (rule assemblyLoop_passes)
  from 1 2 show ?thesis by blast
qed

text \<open>
  The example pool has two transactions, of hashes 1 and 2 and of 200 bytes, and the
  loop starts in the order by fee: it makes at most two passes.
\<close>

theorem NewBlockTemplate_terminates_witness:
  "distinct (map (\<lambda>d. TxHash exEnv (desc_Tx d)) (MiningDescs exEnv)) \<and>
   (\<exists>res. NewBlockTemplate exEnv exPolicy None () = Some res) \<and>
   (\<exists>st n.
      mempoolLoop exEnv 100 (MiningDescs exEnv)
        (initialLocals exEnv exPolicy (exCoinbase 5000)) = Inr st \<and>
      n \<le> 2 \<and>
      assemblyLoop exEnv exPolicy 100 st = Some ((assemblyStep exEnv exPolicy 100 ^^ n) st) \<and>
      items (priorityQueue ((assemblyStep exEnv exPolicy 100 ^^ n) st)) = [])"
proof -
  have d: "distinct (map (\<lambda>d. TxHash exEnv (desc_Tx d)) (MiningDescs exEnv))"
    by (simp add: exEnv_def exTx_def)
  have r: "\<forall>al. mset (rangeOrder exEnv al) = mset al" by (simp add: exEnv_def)
  have h: "best_Height (BestSnapshot exEnv) + 1 = 100" by (simp add: exEnv_def)
  have l: "length (MiningDescs exEnv) + (if BlockPrioritySize exPolicy = 0 then 0 else 1) = 2"
    by (simp add: exEnv_def exPolicy_def)
  have "case mempoolLoop exEnv 100 (MiningDescs exEnv)
      (initialLocals exEnv exPolicy (exCoinbase 5000)) of Inl err \<Rightarrow> False | Inr st \<Rightarrow> True"
    by code_simp
  then obtain st where st: "mempoolLoop exEnv 100 (MiningDescs exEnv)
      (initialLocals exEnv exPolicy (exCoinbase 5000)) = Inr st"
    by (auto split: sum.splits)
  from d r have "(\<forall>tx. (word_of_int (SerializeSize exEnv tx) :: uint32) \<noteq> 0) \<or>
      distinct (map (\<lambda>d. TxHash exEnv (desc_Tx d)) (MiningDescs exEnv)) \<and>
      (\<forall>al. mset (rangeOrder exEnv al) = mset al)" by simp
  from NewBlockTemplate_terminates[OF this, of exPolicy None "()"] st d r
  show ?thesis unfolding h l by blast
qed
section \<open>What UpdateBlockTime changes\<close>

text \<open>
  C10. \<open>UpdateBlockTime\<close> returns the nil error for every environment, block and
  validator key: what \<open>Sign\<close> returns is dropped, so a failure to sign does not
  reach the caller.
\<close>

theorem UpdateBlockTime_returns_nil:
  "snd (UpdateBlockTime env msgBlock validateKey) = None"
  by (simp add: UpdateBlockTime_def Let_def)

theorem UpdateBlockTime_returns_nil_witness:
  "snd (Sign exEnvNoSign ((Header exBlock)\<lparr>hdr_Timestamp := 2000 * Second\<rparr>) ()) =
     Some (Err ''signing failed'') \<and>
   snd (UpdateBlockTime exEnvNoSign exBlock ()) = None"
  using UpdateBlockTime_returns_nil [of exEnvNoSign exBlock "()"]
  by (simp add: Sign_def exEnvNoSign_def exEnv_def)

text \<open>
  C8. \<open>UpdateBlockTime\<close> leaves the transactions, the Merkle root, the recorded size,
  the version, the previous hash, the bits and the height of the block as they were:
  it writes the header timestamp, and \<open>Sign\<close> writes the header signature.
\<close>

theorem UpdateBlockTime_frame:
  "Transactions (fst (UpdateBlockTime env msgBlock validateKey)) = Transactions msgBlock \<and>
   hdr_MerkleRoot (Header (fst (UpdateBlockTime env msgBlock validateKey))) =
     hdr_MerkleRoot (Header msgBlock) \<and>
   hdr_Size (Header (fst (UpdateBlockTime env msgBlock validateKey))) =
     hdr_Size (Header msgBlock) \<and>
   hdr_Version (Header (fst (UpdateBlockTime env msgBlock validateKey))) =
     hdr_Version (Header msgBlock) \<and>
   hdr_PrevBlock (Header (fst (UpdateBlockTime env msgBlock validateKey))) =
     hdr_PrevBlock (Header msgBlock) \<and>
   hdr_Bits (Header (fst (UpdateBlockTime env msgBlock validateKey))) =
     hdr_Bits (Header msgBlock) \<and>
   hdr_Height (Header (fst (UpdateBlockTime env msgBlock validateKey))) =
     hdr_Height (Header msgBlock)"
  by (simp add: UpdateBlockTime_def Sign_def Let_def split: sum.splits)

theorem UpdateBlockTime_frame_witness:
  "fst (UpdateBlockTime exEnv exBlock ()) =
     exBlock\<lparr>Header := (Header exBlock)\<lparr>hdr_Timestamp := 2000 * Second, hdr_Signature := [1]\<rparr>\<rparr> \<and>
   Transactions (fst (UpdateBlockTime exEnv exBlock ())) = Transactions exBlock \<and>
   hdr_MerkleRoot (Header (fst (UpdateBlockTime exEnv exBlock ()))) = 77 \<and>
   hdr_Size (Header (fst (UpdateBlockTime exEnv exBlock ()))) = 378"
  using UpdateBlockTime_frame [of exEnv exBlock "()"]
  by (simp add: UpdateBlockTime_def Sign_def Let_def exEnv_def exBlock_def
      medianAdjustedTime_def minimumMedianTime_def Second_def)

section \<open>What isAdmin computes\<close>

text \<open>
  What \<open>isAdmin\<close> computes: some output classifies as administrative and every
  output before it parses.
\<close>

lemma isAdmin_outs_iff:
  "isAdmin_outs env outs \<longleftrightarrow>
     (\<exists>i < length outs.
        (\<exists>pops. ParseScript env (PkScript (outs ! i)) = Inr pops \<and>
                TypeOfScript env pops = ProvaAdminTy) \<and>
        (\<forall>j < i. \<exists>pops. ParseScript env (PkScript (outs ! j)) = Inr pops))"
proof (induction outs)
  case Nil
  then show ?case by simp
next
  case (Cons txOut rest)
  show ?case
  proof (cases "ParseScript env (PkScript txOut)")
    case (Inl err)
    have "\<not> (\<exists>i < length (txOut # rest).
        (\<exists>pops. ParseScript env (PkScript ((txOut # rest) ! i)) = Inr pops \<and>
                TypeOfScript env pops = ProvaAdminTy) \<and>
        (\<forall>j < i. \<exists>pops. ParseScript env (PkScript ((txOut # rest) ! j)) = Inr pops))"
    proof
      assume "\<exists>i < length (txOut # rest).
        (\<exists>pops. ParseScript env (PkScript ((txOut # rest) ! i)) = Inr pops \<and>
                TypeOfScript env pops = ProvaAdminTy) \<and>
        (\<forall>j < i. \<exists>pops. ParseScript env (PkScript ((txOut # rest) ! j)) = Inr pops)"
      then obtain i where i:
        "\<exists>pops. ParseScript env (PkScript ((txOut # rest) ! i)) = Inr pops"
        "\<forall>j < i. \<exists>pops. ParseScript env (PkScript ((txOut # rest) ! j)) = Inr pops"
        by blast
      show False
      proof (cases i)
        case 0
        with i(1) Inl show False by simp
      next
        case (Suc k)
        with i(2) have "\<exists>pops. ParseScript env (PkScript ((txOut # rest) ! 0)) = Inr pops"
          by blast
        with Inl show False by simp
      qed
    qed
    with Inl show ?thesis by simp
  next
    case (Inr pops)
    show ?thesis
    proof (cases "TypeOfScript env pops = ProvaAdminTy")
      case True
      have "\<exists>i < length (txOut # rest).
        (\<exists>pops. ParseScript env (PkScript ((txOut # rest) ! i)) = Inr pops \<and>
                TypeOfScript env pops = ProvaAdminTy) \<and>
        (\<forall>j < i. \<exists>pops. ParseScript env (PkScript ((txOut # rest) ! j)) = Inr pops)"
        using Inr True by (intro exI[of _ 0]) simp
      with Inr True show ?thesis by simp
    next
      case False
      have "(\<exists>i < length (txOut # rest).
        (\<exists>pops. ParseScript env (PkScript ((txOut # rest) ! i)) = Inr pops \<and>
                TypeOfScript env pops = ProvaAdminTy) \<and>
        (\<forall>j < i. \<exists>pops. ParseScript env (PkScript ((txOut # rest) ! j)) = Inr pops))
        \<longleftrightarrow>
        (\<exists>i < length rest.
        (\<exists>pops. ParseScript env (PkScript (rest ! i)) = Inr pops \<and>
                TypeOfScript env pops = ProvaAdminTy) \<and>
        (\<forall>j < i. \<exists>pops. ParseScript env (PkScript (rest ! j)) = Inr pops))"
        (is "?L \<longleftrightarrow> ?R")
      proof
        assume ?L
        then obtain i where i: "i < length (txOut # rest)"
          "\<exists>pops. ParseScript env (PkScript ((txOut # rest) ! i)) = Inr pops \<and>
                TypeOfScript env pops = ProvaAdminTy"
          "\<forall>j < i. \<exists>pops. ParseScript env (PkScript ((txOut # rest) ! j)) = Inr pops"
          by blast
        from i(2) Inr False obtain k where k: "i = Suc k" by (cases i) auto
        have "\<forall>j < k. \<exists>pops. ParseScript env (PkScript (rest ! j)) = Inr pops"
        proof (intro allI impI)
          fix j assume "j < k"
          then have "Suc j < i" using k by simp
          with i(3) show "\<exists>pops. ParseScript env (PkScript (rest ! j)) = Inr pops"
            by fastforce
        qed
        with i(1,2) k show ?R by (intro exI[of _ k]) simp
      next
        assume ?R
        then obtain k where k: "k < length rest"
          "\<exists>pops. ParseScript env (PkScript (rest ! k)) = Inr pops \<and>
                TypeOfScript env pops = ProvaAdminTy"
          "\<forall>j < k. \<exists>pops. ParseScript env (PkScript (rest ! j)) = Inr pops"
          by blast
        have "\<forall>j < Suc k. \<exists>pops. ParseScript env (PkScript ((txOut # rest) ! j)) = Inr pops"
        proof (intro allI impI)
          fix j assume "j < Suc k"
          then show "\<exists>pops. ParseScript env (PkScript ((txOut # rest) ! j)) = Inr pops"
            using k(3) Inr by (cases j) auto
        qed
        with k(1,2) show ?L by (intro exI[of _ "Suc k"]) simp
      qed
      with Inr False Cons.IH show ?thesis by simp
    qed
  qed
qed

text \<open>
  C7 (the code departs from the claim). The first output does not parse and the second
  is of the administrative class: \<open>isAdmin\<close> returns at the parse error and is false.
  With the two outputs in the other order it is true.
\<close>

theorem isAdmin_stops_at_parse_error:
  "ParseScript exEnv [0xff] = Inl (Err ''malformed script'') \<and>
   ParseScript exEnv [0x51, 0x51] = Inr 2 \<and>
   TypeOfScript exEnv 2 = ProvaAdminTy \<and>
   isAdmin exEnv (exTx 1 [(50, 0)] [[0xff], [0x51, 0x51]]) = False \<and>
   isAdmin exEnv (exTx 1 [(50, 0)] [[0x51, 0x51], [0xff]]) = True"
  by (simp add: isAdmin_def exEnv_def exTx_def)

section \<open>The compare functions\<close>

text \<open>
  C3 (the code departs from the claim). For the ordinary candidate at index 0 and the
  administrative candidate at index 1, both compare functions say that each sorts
  before the other. On the queue: after the administrative candidate and then the
  ordinary one are pushed, the ordinary one is popped first.
\<close>

theorem compare_functions_not_antisymmetric:
  "item_isAdmin exAdminItem \<and> \<not> item_isAdmin exNormalItem \<and>
   txPQByPriority [exNormalItem, exAdminItem] 0 1 \<and>
   txPQByPriority [exNormalItem, exAdminItem] 1 0 \<and>
   txPQByFee [exNormalItem, exAdminItem] 0 1 \<and>
   txPQByFee [exNormalItem, exAdminItem] 1 0 \<and>
   fst (pq_heapPop [exAdminItem, exNormalItem]
         (pq_heapPush [exAdminItem, exNormalItem]
           (pq_heapPush [exAdminItem, exNormalItem]
             (newTxPriorityQueue [exAdminItem, exNormalItem] True) 0) 1)) = 1 \<and>
   fst (pq_heapPop [exAdminItem, exNormalItem]
         (pq_heapPush [exAdminItem, exNormalItem]
           (pq_heapPush [exAdminItem, exNormalItem]
             (newTxPriorityQueue [exAdminItem, exNormalItem] False) 0) 1)) = 1"
  by code_simp

end
